theory Spec2Isabelle
  imports Complex_Main "HOL-Library.FSet" "HOL-Library.Word"
begin

unbundle bit_operations_syntax

section \<open>Python values\<close>

text \<open>
  The retrieval engine of \<^verbatim>\<open>rag_system.py\<close>: the sentence chunker, the TF-IDF
  index and the service that joins them.

  Conventions of the embedding.
  \<^item> A Python \<^verbatim>\<open>str\<close> is a \<^typ>\<open>string\<close>; a \<^typ>\<open>char\<close> with code \<open>n\<close> stands for
    the code point U+00\<open>n\<close>, so the strings of the model are the Python strings over
    the code points below 256 and \<^const>\<open>length\<close> is Python's \<^verbatim>\<open>len\<close>.
  \<^item> A Python \<^verbatim>\<open>int\<close> is an \<^typ>\<open>int\<close>; the two counters that start at 0 and are
    only ever incremented (\<^verbatim>\<open>total_docs\<close> and the entries of \<^verbatim>\<open>doc_freqs\<close>) are
    \<^typ>\<open>nat\<close>.
  \<^item> A Python \<^verbatim>\<open>float\<close> is the \<^typ>\<open>real\<close> number it stands for. The float quotient,
    product and sum are results of rounding: they are the operations \<open>fdiv\<close>, \<open>fmul\<close>
    and \<open>fadd\<close> of a parameter \<open>fl\<close>, arbitrary functions on these numbers, and
    every statement holds for every choice of them. The value of
    \<^verbatim>\<open>math.log(total_docs / df)\<close> is taken exact, as \<open>ln (total_docs / df)\<close>; since
    \<open>fmul\<close> is arbitrary, the product of a TF with it may round as the code's product
    with the rounded logarithm does. A score that Python leaves at the integer \<^verbatim>\<open>0\<close>
    is the real \<open>0\<close>.
  \<^item> A chunk is a Python \<^verbatim>\<open>dict\<close> with string keys: a map from \<^typ>\<open>string\<close> to
    the values below. A subscript on a missing key is the error \<open>KeyError\<close>.
\<close>

datatype pyval =
    PNone
  | PInt int
  | PFloat real
  | PStr string
  | PList "string list"
  | PDict "string \<Rightarrow> real option"

type_synonym pydict = "string \<Rightarrow> pyval option"

text \<open>
  \<open>KeyError k\<close>: a subscript \<^verbatim>\<open>d[k]\<close> on a dict without the key \<open>k\<close>.
  \<open>TypeError\<close>: a field holds a value of another type than the one the program stores
  there (Python raises \<^verbatim>\<open>TypeError\<close> or \<^verbatim>\<open>AttributeError\<close> on its first use); no
  operation of the program builds such a dict.
  \<open>UnicodeEncodeError\<close>: \<^verbatim>\<open>text.encode()\<close> on a text that UTF-8 cannot encode.
\<close>

datatype error = KeyError string | TypeError | UnicodeEncodeError

text \<open>The float operations of the program: \<^verbatim>\<open>a / b\<close>, \<^verbatim>\<open>a * b\<close> and \<^verbatim>\<open>a + b\<close>, each
  with its rounding. \<open>exact\<close> is the choice without rounding, used in the examples.\<close>

record float_ops =
  fdiv :: "real \<Rightarrow> real \<Rightarrow> real"
  fmul :: "real \<Rightarrow> real \<Rightarrow> real"
  fadd :: "real \<Rightarrow> real \<Rightarrow> real"

definition exact :: float_ops where
  "exact = \<lparr>fdiv = (\<lambda>a b. a / b), fmul = (\<lambda>a b. a * b), fadd = (\<lambda>a b. a + b)\<rparr>"

section \<open>Characters and strings\<close>

definition code :: "char \<Rightarrow> nat" where
  "code c = of_char c"

text \<open>\<^verbatim>\<open>str.isspace\<close> and the regular expression class \<^verbatim>\<open>\s\<close> on code points below 256.\<close>

definition is_space :: "char \<Rightarrow> bool" where
  "is_space c = (code c \<in> {9, 10, 11, 12, 13, 28, 29, 30, 31, 32, 133, 160})"

text \<open>\<^verbatim>\<open>str.strip()\<close>: leading and trailing whitespace removed.\<close>

definition strip :: "string \<Rightarrow> string" where
  "strip s = rev (dropWhile is_space (rev (dropWhile is_space s)))"

text \<open>\<^verbatim>\<open>str.lower()\<close>: below 256 the upper-case letters are A-Z and U+00C0-U+00DE
  without the multiplication sign U+00D7; each maps to the code point 32 above it.\<close>

definition is_upper :: "char \<Rightarrow> bool" where
  "is_upper c = (let n = code c in (65 \<le> n \<and> n \<le> 90) \<or> (192 \<le> n \<and> n \<le> 222 \<and> n \<noteq> 215))"

definition lower_char :: "char \<Rightarrow> char" where
  "lower_char c = (if is_upper c then char_of (code c + 32) else c)"

definition lower :: "string \<Rightarrow> string" where
  "lower s = map lower_char s"

text \<open>\<^verbatim>\<open>' '.join(xs)\<close> and, in general, \<^verbatim>\<open>sep.join(xs)\<close>.\<close>

fun join :: "string \<Rightarrow> string list \<Rightarrow> string" where
  "join sep [] = []"
| "join sep [x] = x"
| "join sep (x # y # ys) = x @ sep @ join sep (y # ys)"

text \<open>The slice \<^verbatim>\<open>xs[:k]\<close> for any integer \<open>k\<close>: a negative \<open>k\<close> counts from the end.\<close>

definition slice_to :: "'a list \<Rightarrow> int \<Rightarrow> 'a list" where
  "slice_to xs k = (if 0 \<le> k then take (nat k) xs else take (nat (int (length xs) + k)) xs)"

section \<open>TextChunker\<close>

record text_chunker =
  chunk_size :: int
  chunk_overlap :: int

text \<open>\<^verbatim>\<open>TextChunker.__init__\<close> stores its two arguments and checks nothing.\<close>

definition TextChunker_init :: "int \<Rightarrow> int \<Rightarrow> error + text_chunker" where
  "TextChunker_init cs co = Inr \<lparr>chunk_size = cs, chunk_overlap = co\<rparr>"

text \<open>
  \<^verbatim>\<open>re.split(r'(?<=[.!?])\s+', text)\<close>: the text is cut at every maximal run of
  whitespace that directly follows one of \<^verbatim>\<open>.\<close>, \<^verbatim>\<open>!\<close>, \<^verbatim>\<open>?\<close>. The first argument
  is the piece read so far; its last character is the character before the position.
\<close>

definition is_terminal :: "char \<Rightarrow> bool" where
  "is_terminal c = (c = CHR ''.'' \<or> c = CHR ''!'' \<or> c = CHR ''?'')"

function re_split :: "string \<Rightarrow> string \<Rightarrow> string list" where
  "re_split cur [] = [cur]"
| "re_split cur (c # cs) =
     (if is_space c \<and> cur \<noteq> [] \<and> is_terminal (last cur)
      then cur # re_split [] (dropWhile is_space cs)
      else re_split (cur @ [c]) cs)"
  by pat_completeness auto
termination
  by (relation "measure (\<lambda>(cur, s). length s)")
     (auto simp: length_dropWhile_le less_Suc_eq_le)

definition split_into_sentences :: "string \<Rightarrow> string list" where
  "split_into_sentences text =
     map strip (filter (\<lambda>s. strip s \<noteq> []) (re_split [] text))"

text \<open>The loop of \<^verbatim>\<open>_get_overlap_sentences\<close> over \<^verbatim>\<open>reversed(sentences)\<close>, with its
  \<^verbatim>\<open>break\<close>: the arguments are the sentences still to visit, \<^verbatim>\<open>overlap_chars\<close> and
  \<^verbatim>\<open>overlap_sentences\<close>.\<close>

fun overlap_loop :: "int \<Rightarrow> string list \<Rightarrow> int \<Rightarrow> string list \<Rightarrow> string list" where
  "overlap_loop co [] overlap_chars overlap_sentences = overlap_sentences"
| "overlap_loop co (sentence # rest) overlap_chars overlap_sentences =
     (if overlap_chars + int (length sentence) \<le> co
      then overlap_loop co rest (overlap_chars + int (length sentence))
             (sentence # overlap_sentences)
      else overlap_sentences)"

definition get_overlap_sentences :: "text_chunker \<Rightarrow> string list \<Rightarrow> string list" where
  "get_overlap_sentences c sentences =
     (if sentences = [] then []
      else overlap_loop (chunk_overlap c) (rev sentences) 0 [])"

text \<open>The dict that \<^verbatim>\<open>chunk_text\<close> appends for the sentences of one chunk.\<close>

definition make_chunk :: "string list \<Rightarrow> nat \<Rightarrow> pydict" where
  "make_chunk current_chunk n =
     (let chunk_text = join '' '' current_chunk
      in [''text'' \<mapsto> PStr chunk_text,
          ''char_count'' \<mapsto> PInt (int (length chunk_text)),
          ''chunk_id'' \<mapsto> PInt (int n)])"

text \<open>One pass of the loop body of \<^verbatim>\<open>chunk_text\<close> on the state
  \<^verbatim>\<open>(chunks, current_chunk, current_length)\<close>.\<close>

definition chunk_step ::
  "text_chunker \<Rightarrow> pydict list \<times> string list \<times> int \<Rightarrow> string \<Rightarrow> pydict list \<times> string list \<times> int" where
  "chunk_step c st sentence =
     (case st of (chunks, current_chunk, current_length) \<Rightarrow>
        if current_length + int (length sentence) \<le> chunk_size c
        then (chunks, current_chunk @ [sentence], current_length + int (length sentence) + 1)
        else
          (let chunks' = (if current_chunk \<noteq> []
                          then chunks @ [make_chunk current_chunk (length chunks)]
                          else chunks);
               current_chunk' = get_overlap_sentences c current_chunk @ [sentence]
           in (chunks', current_chunk',
               sum_list (map (\<lambda>s. int (length s)) current_chunk') + int (length current_chunk'))))"

definition chunk_text :: "text_chunker \<Rightarrow> string \<Rightarrow> pydict list" where
  "chunk_text c text =
     (if text = [] \<or> strip text = [] then []
      else
        (case foldl (chunk_step c) ([], [], 0) (split_into_sentences (strip text)) of
           (chunks, current_chunk, current_length) \<Rightarrow>
             if current_chunk \<noteq> []
             then chunks @ [make_chunk current_chunk (length chunks)]
             else chunks))"

section \<open>SimpleVectorStore\<close>

text \<open>
  \<^verbatim>\<open>re.findall\<close> with the pattern \<^verbatim>\<open>\b[...]+\b\<close>, whose bracket expression lists
  a-z, A-Z, 0-9 and the ranges U+00E0 to U+00FF and U+00C0 to U+0178. \<open>in_class\<close> is
  that bracket expression below 256; \<open>is_word\<close> is the class \<^verbatim>\<open>\w\<close> that decides the
  boundary \<^verbatim>\<open>\b\<close> (alphanumeric code points and the underscore).
\<close>

definition in_class :: "char \<Rightarrow> bool" where
  "in_class c = (let n = code c in
     (97 \<le> n \<and> n \<le> 122) \<or> (65 \<le> n \<and> n \<le> 90) \<or> (48 \<le> n \<and> n \<le> 57) \<or> (192 \<le> n \<and> n \<le> 255))"

definition is_word :: "char \<Rightarrow> bool" where
  "is_word c = (let n = code c in
     (48 \<le> n \<and> n \<le> 57) \<or> (65 \<le> n \<and> n \<le> 90) \<or> n = 95 \<or> (97 \<le> n \<and> n \<le> 122) \<or>
     n \<in> {170, 178, 179, 181, 185, 186, 188, 189, 190} \<or>
     (192 \<le> n \<and> n \<le> 255 \<and> n \<noteq> 215 \<and> n \<noteq> 247))"

text \<open>\<^verbatim>\<open>\b\<close> between a character (or the start of the text) and the rest of the text.\<close>

definition boundary :: "char option \<Rightarrow> string \<Rightarrow> bool" where
  "boundary prev rest =
     ((case prev of None \<Rightarrow> False | Some p \<Rightarrow> is_word p) \<noteq>
      (case rest of [] \<Rightarrow> False | c # _ \<Rightarrow> is_word c))"

text \<open>The greedy \<^verbatim>\<open>+\<close> with backtracking: the longest prefix of \<open>s\<close>, of at most \<open>n\<close>
  and at least one character, that ends at a boundary.\<close>

fun longest_match :: "nat \<Rightarrow> string \<Rightarrow> string option" where
  "longest_match 0 s = None"
| "longest_match (Suc n) s =
     (if boundary (Some (s ! n)) (drop (Suc n) s) then Some (take (Suc n) s)
      else longest_match n s)"

definition match_here :: "char option \<Rightarrow> string \<Rightarrow> string option" where
  "match_here prev s =
     (if boundary prev s then longest_match (length (takeWhile in_class s)) s else None)"

text \<open>The scan of \<^verbatim>\<open>findall\<close>: matches are taken leftmost first and do not overlap.\<close>

function findall :: "char option \<Rightarrow> string \<Rightarrow> string list" where
  "findall prev [] = []"
| "findall prev (c # cs) =
     (case match_here prev (c # cs) of
        None \<Rightarrow> findall (Some c) cs
      | Some w \<Rightarrow> w # findall (Some (last w)) (drop (length w) (c # cs)))"
  by pat_completeness auto
termination
proof (relation "measure (\<lambda>(prev, s). length s)")
  show "wf (measure (\<lambda>(prev, s). length s))" by simp
next
  fix prev c cs
  show "((Some c, cs), (prev, c # cs)) \<in> measure (\<lambda>(prev, s). length s)" by simp
next
  fix prev :: "char option" and c cs w
  assume m: "match_here prev (c # cs) = Some w"
  have lm: "longest_match n s = Some v \<Longrightarrow> n \<le> length s \<Longrightarrow> v \<noteq> [] \<and> length v \<le> length s"
    for n s v
    by (induction n) (auto split: if_splits)
  have "length (takeWhile in_class (c # cs)) \<le> length (c # cs)"
    by (rule length_takeWhile_le)
  with m have "w \<noteq> []" "length w \<le> length (c # cs)"
    using lm [of "length (takeWhile in_class (c # cs))" "c # cs" w]
    by (auto simp: match_here_def split: if_splits)
  then show "((Some (last w), drop (length w) (c # cs)), (prev, c # cs))
      \<in> measure (\<lambda>(prev, s). length s)"
    by (cases w) auto
qed

definition tokenize :: "string \<Rightarrow> string list" where
  "tokenize text = filter (\<lambda>w. length w > 2) (findall None (lower text))"

text \<open>\<^verbatim>\<open>_compute_tf\<close>: the dict from each distinct token to its count divided by the
  number of tokens; the empty dict for no tokens.\<close>

definition compute_tf :: "float_ops \<Rightarrow> string list \<Rightarrow> (string \<Rightarrow> real option)" where
  "compute_tf fl tokens =
     (let total = length tokens in
      if total = 0 then Map.empty
      else (\<lambda>term. if term \<in> set tokens
                    then Some (fdiv fl (real (count_list tokens term)) (real total))
                    else None))"

text \<open>\<^verbatim>\<open>doc_freqs\<close> is a \<^verbatim>\<open>Counter\<close>: a missing term counts 0.\<close>

record simple_vector_store =
  documents :: "pydict list"
  doc_freqs :: "string \<Rightarrow> nat"
  total_docs :: nat

definition SimpleVectorStore_init :: simple_vector_store where
  "SimpleVectorStore_init = \<lparr>documents = [], doc_freqs = (\<lambda>term. 0), total_docs = 0\<rparr>"

definition compute_idf :: "simple_vector_store \<Rightarrow> string \<Rightarrow> real" where
  "compute_idf vs term =
     (if total_docs vs = 0 then 0
      else
        (let df = doc_freqs vs term in
         if df = 0 then 0 else ln (real (total_docs vs) / real df)))"

text \<open>The loop body of \<^verbatim>\<open>add_documents\<close> for one chunk. The terms of \<^verbatim>\<open>set(tokens)\<close>
  are visited once each; the order does not change the result.\<close>

definition add_chunk ::
  "float_ops \<Rightarrow> string option \<Rightarrow> simple_vector_store \<Rightarrow> pydict \<Rightarrow> error + simple_vector_store" where
  "add_chunk fl document_id vs chunk =
     (case chunk ''text'' of
        None \<Rightarrow> Inl (KeyError ''text'')
      | Some (PStr text) \<Rightarrow>
          (let tokens = tokenize text;
               chunk' = chunk(''document_id'' \<mapsto> (case document_id of None \<Rightarrow> PNone | Some i \<Rightarrow> PStr i),
                              ''tokens'' \<mapsto> PList tokens,
                              ''tf'' \<mapsto> PDict (compute_tf fl tokens))
           in Inr \<lparr>documents = documents vs @ [chunk'],
                   doc_freqs = foldl (\<lambda>df term. df(term := df term + 1)) (doc_freqs vs)
                                 (remdups tokens),
                   total_docs = total_docs vs + 1\<rparr>)
      | Some _ \<Rightarrow> Inl TypeError)"

fun add_documents ::
  "float_ops \<Rightarrow> simple_vector_store \<Rightarrow> pydict list \<Rightarrow> string option \<Rightarrow>
   error + simple_vector_store" where
  "add_documents fl vs [] document_id = Inr vs"
| "add_documents fl vs (chunk # chunks) document_id =
     (case add_chunk fl document_id vs chunk of
        Inl e \<Rightarrow> Inl e
      | Inr vs' \<Rightarrow> add_documents fl vs' chunks document_id)"

text \<open>\<^verbatim>\<open>p in s\<close> for two strings: \<open>p\<close> occurs in \<open>s\<close> as a substring.\<close>

fun substring :: "string \<Rightarrow> string \<Rightarrow> bool" where
  "substring p [] = (p = [])"
| "substring p (c # cs) = (take (length p) (c # cs) = p \<or> substring p cs)"

text \<open>The inner loop of \<^verbatim>\<open>search\<close> over the query terms, for one document and from the
  score reached so far. \<^verbatim>\<open>doc['tf']\<close> is read once per query term. For a dict, a term
  that is a key adds \<^verbatim>\<open>tf * idf\<close> to the score. A list or a string also accepts
  \<^verbatim>\<open>term in\<close>, and the subscript by the term then raises; any other value refuses
  \<^verbatim>\<open>in\<close>.\<close>

fun score_terms ::
  "float_ops \<Rightarrow> simple_vector_store \<Rightarrow> pydict \<Rightarrow> real \<Rightarrow> string list \<Rightarrow> error + real" where
  "score_terms fl vs doc score [] = Inr score"
| "score_terms fl vs doc score (term # terms) =
     (case doc ''tf'' of
        None \<Rightarrow> Inl (KeyError ''tf'')
      | Some (PDict tfs) \<Rightarrow>
          (case tfs term of
             None \<Rightarrow> score_terms fl vs doc score terms
           | Some tf \<Rightarrow>
               score_terms fl vs doc (fadd fl score (fmul fl tf (compute_idf vs term))) terms)
      | Some (PList l) \<Rightarrow>
          if term \<in> set l then Inl TypeError else score_terms fl vs doc score terms
      | Some (PStr s) \<Rightarrow>
          if substring term s then Inl TypeError else score_terms fl vs doc score terms
      | Some _ \<Rightarrow> Inl TypeError)"

definition score_doc ::
  "float_ops \<Rightarrow> simple_vector_store \<Rightarrow> string list \<Rightarrow> pydict \<Rightarrow> error + real" where
  "score_doc fl vs query_tokens doc = score_terms fl vs doc 0 query_tokens"

text \<open>The outer loop over \<^verbatim>\<open>enumerate(self.documents)\<close>, from index \<open>i\<close> on.\<close>

fun score_documents ::
  "float_ops \<Rightarrow> simple_vector_store \<Rightarrow> string list \<Rightarrow> pydict list \<Rightarrow> nat \<Rightarrow>
   error + (real \<times> nat) list" where
  "score_documents fl vs query_tokens [] i = Inr []"
| "score_documents fl vs query_tokens (doc # docs) i =
     (case score_doc fl vs query_tokens doc of
        Inl e \<Rightarrow> Inl e
      | Inr score \<Rightarrow>
          (case score_documents fl vs query_tokens docs (Suc i) of
             Inl e \<Rightarrow> Inl e
           | Inr scores \<Rightarrow> Inr ((score, i) # scores)))"

text \<open>\<^verbatim>\<open>scores.sort(reverse=True, key=lambda x: x[0])\<close>: Python's sort is stable, and with
  \<^verbatim>\<open>reverse=True\<close> it reverses the list, sorts it in ascending order and reverses the
  result, so that elements with equal keys keep their order.\<close>

definition sort_scores :: "(real \<times> nat) list \<Rightarrow> (real \<times> nat) list" where
  "sort_scores scores = rev (sort_key fst (rev scores))"

text \<open>The copy of a stored document that \<^verbatim>\<open>search\<close> returns: the score is set, the
  keys \<^verbatim>\<open>tokens\<close> and \<^verbatim>\<open>tf\<close> are popped.\<close>

definition make_result :: "pydict list \<Rightarrow> real \<times> nat \<Rightarrow> pydict" where
  "make_result docs p =
     (case p of (score, idx) \<Rightarrow>
        ((docs ! idx)(''score'' \<mapsto> PFloat score))(''tokens'' := None, ''tf'' := None))"

text \<open>\<^verbatim>\<open>search\<close>. The source also computes \<^verbatim>\<open>query_tf\<close> and never reads it; it is left
  out.\<close>

definition search ::
  "float_ops \<Rightarrow> simple_vector_store \<Rightarrow> string \<Rightarrow> int \<Rightarrow> error + pydict list" where
  "search fl vs query top_k =
     (if documents vs = [] then Inr []
      else
        (let query_tokens = tokenize query in
         if query_tokens = [] then Inr (slice_to (documents vs) top_k)
         else
           (case score_documents fl vs query_tokens (documents vs) 0 of
              Inl e \<Rightarrow> Inl e
            | Inr scores \<Rightarrow>
                Inr (map (make_result (documents vs)) (slice_to (sort_scores scores) top_k)))))"

text \<open>\<^verbatim>\<open>[doc['text'] for doc in docs]\<close>, as the strings that \<^verbatim>\<open>join\<close> accepts.\<close>

fun texts_of :: "pydict list \<Rightarrow> error + string list" where
  "texts_of [] = Inr []"
| "texts_of (doc # docs) =
     (case doc ''text'' of
        None \<Rightarrow> Inl (KeyError ''text'')
      | Some (PStr t) \<Rightarrow>
          (case texts_of docs of Inl e \<Rightarrow> Inl e | Inr ts \<Rightarrow> Inr (t # ts))
      | Some _ \<Rightarrow> Inl TypeError)"

definition get_all_text :: "simple_vector_store \<Rightarrow> error + string" where
  "get_all_text vs =
     (case texts_of (documents vs) of
        Inl e \<Rightarrow> Inl e
      | Inr ts \<Rightarrow> Inr (join [CHR 0x0A, CHR 0x0A] ts))"

definition store_clear :: "simple_vector_store \<Rightarrow> simple_vector_store" where
  "store_clear vs = \<lparr>documents = [], doc_freqs = (\<lambda>term. 0), total_docs = 0\<rparr>"

section \<open>RAGSystem\<close>

record rag_system =
  chunker :: text_chunker
  vector_store :: simple_vector_store
  document_hashes :: "string fset"

definition RAGSystem_init :: "int \<Rightarrow> int \<Rightarrow> error + rag_system" where
  "RAGSystem_init cs co =
     (case TextChunker_init cs co of
        Inl e \<Rightarrow> Inl e
      | Inr c \<Rightarrow>
          Inr \<lparr>chunker = c, vector_store = SimpleVectorStore_init, document_hashes = {||}\<rparr>)"

text \<open>
  \<^verbatim>\<open>add_document\<close>. The digest \<^verbatim>\<open>hashlib.md5(text.encode()).hexdigest()\<close> is library code:
  it is the parameter \<open>md5_hexdigest\<close>, which gives the digest string of a text, or the
  error that \<^verbatim>\<open>text.encode()\<close> raises for a text it cannot encode. Every statement below
  holds for every such function.
\<close>

definition add_document ::
  "float_ops \<Rightarrow> (string \<Rightarrow> error + string) \<Rightarrow> rag_system \<Rightarrow> string \<Rightarrow> string option \<Rightarrow>
   error + (int \<times> rag_system)" where
  "add_document fl md5_hexdigest rs text document_id =
     (case md5_hexdigest text of
        Inl e \<Rightarrow> Inl e
      | Inr text_hash \<Rightarrow>
          if text_hash |\<in>| document_hashes rs then Inr (0, rs)
          else
            (let rs' = rs\<lparr>document_hashes := finsert text_hash (document_hashes rs)\<rparr>;
                 chunks = chunk_text (chunker rs') text
             in case add_documents fl (vector_store rs') chunks document_id of
                  Inl e \<Rightarrow> Inl e
                | Inr vs' \<Rightarrow> Inr (int (length chunks), rs'\<lparr>vector_store := vs'\<rparr>)))"

definition get_relevant_context ::
  "float_ops \<Rightarrow> rag_system \<Rightarrow> string \<Rightarrow> int \<Rightarrow> error + string" where
  "get_relevant_context fl rs query top_k =
     (case search fl (vector_store rs) query top_k of
        Inl e \<Rightarrow> Inl e
      | Inr results \<Rightarrow>
          if results = []
          then (case get_all_text (vector_store rs) of
                  Inl e \<Rightarrow> Inl e
                | Inr t \<Rightarrow> Inr (take 3000 t))
          else (case texts_of results of
                  Inl e \<Rightarrow> Inl e
                | Inr context_parts \<Rightarrow>
                    Inr (join [CHR 0x0A, CHR 0x0A, CHR ''-'', CHR ''-'', CHR ''-'', CHR 0x0A, CHR 0x0A]
                           context_parts)))"

definition get_full_context :: "rag_system \<Rightarrow> error + string" where
  "get_full_context rs = get_all_text (vector_store rs)"

definition clear :: "rag_system \<Rightarrow> rag_system" where
  "clear rs = rs\<lparr>vector_store := store_clear (vector_store rs), document_hashes := {||}\<rparr>"

record stats =
  total_chunks :: int
  unique_documents :: int

definition get_stats :: "rag_system \<Rightarrow> stats" where
  "get_stats rs =
     \<lparr>total_chunks = int (length (documents (vector_store rs))),
      unique_documents = int (fcard (document_hashes rs))\<rparr>"

section \<open>Runs of the service\<close>

text \<open>The calls a client can make on a service instance, and the state of the service
  after a sequence of them. A call that raises leaves the service as the call found it,
  and the next call goes on from there: \<^verbatim>\<open>search\<close> and the context methods change
  nothing, and \<^verbatim>\<open>add_document\<close> raises only from \<^verbatim>\<open>text.encode()\<close>, before it changes
  anything (\<open>add_document_raises\<close> below).\<close>

datatype operation =
    AddDocument string "string option"
  | Search string int
  | GetRelevantContext string int
  | GetFullContext
  | GetStats
  | Clear

definition perform ::
  "float_ops \<Rightarrow> (string \<Rightarrow> error + string) \<Rightarrow> rag_system \<Rightarrow> operation \<Rightarrow> error + rag_system" where
  "perform fl md5_hexdigest rs oper =
     (case oper of
        AddDocument text document_id \<Rightarrow>
          (case add_document fl md5_hexdigest rs text document_id of
             Inl e \<Rightarrow> Inl e | Inr (n, rs') \<Rightarrow> Inr rs')
      | Search query top_k \<Rightarrow>
          (case search fl (vector_store rs) query top_k of
             Inl e \<Rightarrow> Inl e | Inr results \<Rightarrow> Inr rs)
      | GetRelevantContext query top_k \<Rightarrow>
          (case get_relevant_context fl rs query top_k of Inl e \<Rightarrow> Inl e | Inr t \<Rightarrow> Inr rs)
      | GetFullContext \<Rightarrow>
          (case get_full_context rs of Inl e \<Rightarrow> Inl e | Inr t \<Rightarrow> Inr rs)
      | GetStats \<Rightarrow> Inr rs
      | Clear \<Rightarrow> Inr (clear rs))"

fun run ::
  "float_ops \<Rightarrow> (string \<Rightarrow> error + string) \<Rightarrow> rag_system \<Rightarrow> operation list \<Rightarrow> rag_system" where
  "run fl md5_hexdigest rs [] = rs"
| "run fl md5_hexdigest rs (oper # ops) =
     (case perform fl md5_hexdigest rs oper of
        Inl e \<Rightarrow> run fl md5_hexdigest rs ops
      | Inr rs' \<Rightarrow> run fl md5_hexdigest rs' ops)"

definition run_from ::
  "float_ops \<Rightarrow> (string \<Rightarrow> error + string) \<Rightarrow> int \<Rightarrow> int \<Rightarrow> operation list \<Rightarrow>
   error + rag_system" where
  "run_from fl md5_hexdigest cs co ops =
     (case RAGSystem_init cs co of
        Inl e \<Rightarrow> Inl e
      | Inr rs \<Rightarrow> Inr (run fl md5_hexdigest rs ops))"

section \<open>Invariants and the specification's formulas\<close>

text \<open>A chunk as \<^verbatim>\<open>chunk_text\<close> builds it: a text and the three keys of the chunker.\<close>

definition fresh_chunk :: "pydict \<Rightarrow> bool" where
  "fresh_chunk d =
     ((case d ''text'' of Some (PStr t) \<Rightarrow> True | _ \<Rightarrow> False) \<and>
      dom d = {''text'', ''char_count'', ''chunk_id''})"

definition text_of :: "pydict \<Rightarrow> string" where
  "text_of d = (case d ''text'' of Some (PStr t) \<Rightarrow> t | _ \<Rightarrow> [])"

text \<open>A chunk as \<^verbatim>\<open>add_documents\<close> stores it: the keys of the chunker, the document id,
  and the token list and TF mapping of its own text.\<close>

definition stored_chunk :: "float_ops \<Rightarrow> pydict \<Rightarrow> bool" where
  "stored_chunk fl d =
     (d ''text'' = Some (PStr (text_of d)) \<and>
      d ''tokens'' = Some (PList (tokenize (text_of d))) \<and>
      d ''tf'' = Some (PDict (compute_tf fl (tokenize (text_of d)))) \<and>
      dom d = {''text'', ''char_count'', ''chunk_id'', ''document_id'', ''tokens'', ''tf''})"

definition chunk_tokens :: "pydict \<Rightarrow> string list" where
  "chunk_tokens d = (case d ''tokens'' of Some (PList ts) \<Rightarrow> ts | _ \<Rightarrow> [])"

text \<open>The number of stored chunks whose token set contains the term.\<close>

definition chunks_containing :: "pydict list \<Rightarrow> string \<Rightarrow> nat" where
  "chunks_containing docs term = length (filter (\<lambda>d. term \<in> set (chunk_tokens d)) docs)"

text \<open>The invariant of the index state in the data model.\<close>

definition index_invariant :: "simple_vector_store \<Rightarrow> bool" where
  "index_invariant vs =
     ((\<forall>term. doc_freqs vs term = chunks_containing (documents vs) term) \<and>
      total_docs vs = length (documents vs))"

definition well_formed :: "float_ops \<Rightarrow> simple_vector_store \<Rightarrow> bool" where
  "well_formed fl vs = (list_all (stored_chunk fl) (documents vs) \<and> index_invariant vs)"

text \<open>The scoring formula as the specification words it, in the float arithmetic \<open>fl\<close>:
  TF is the fraction of the chunk's tokens equal to the term, IDF is
  \<open>ln (total_chunks / document_frequency)\<close> for a term of positive document frequency
  and a contribution of 0 otherwise, and the score sums their products over the terms of
  the query, from 0 and in the order and with the repetitions of the tokenized query.\<close>

definition spec_TF :: "float_ops \<Rightarrow> pydict \<Rightarrow> string \<Rightarrow> real" where
  "spec_TF fl chunk t =
     (let tokens = tokenize (text_of chunk) in
      if tokens = [] then 0
      else fdiv fl (real (count_list tokens t)) (real (length tokens)))"

definition spec_IDF :: "simple_vector_store \<Rightarrow> string \<Rightarrow> real" where
  "spec_IDF vs t =
     (if doc_freqs vs t > 0 then ln (real (total_docs vs) / real (doc_freqs vs t)) else 0)"

definition spec_score :: "float_ops \<Rightarrow> simple_vector_store \<Rightarrow> pydict \<Rightarrow> string list \<Rightarrow> real" where
  "spec_score fl vs chunk query_terms =
     foldl (\<lambda>s t. fadd fl s (fmul fl (spec_TF fl chunk t) (spec_IDF vs t))) 0 query_terms"

text \<open>The laws of zero that equate a sum with and without its zero terms: the float
  quotient of 0 by a positive number is 0, the float product of 0 with a number is 0, and
  the float sum of a number with 0 is that number.\<close>

definition zero_laws :: "float_ops \<Rightarrow> bool" where
  "zero_laws fl =
     ((\<forall>y. 0 < y \<longrightarrow> fdiv fl 0 y = 0) \<and> (\<forall>y. fmul fl 0 y = 0) \<and> (\<forall>x. fadd fl x 0 = x))"

text \<open>The score that \<^verbatim>\<open>search\<close> computes for a chunk, and the list of every stored
  chunk's computed score for a query, each with the chunk's insertion position.\<close>

definition chunk_score :: "float_ops \<Rightarrow> simple_vector_store \<Rightarrow> string list \<Rightarrow> pydict \<Rightarrow> real" where
  "chunk_score fl vs query_tokens doc =
     (case score_doc fl vs query_tokens doc of Inr score \<Rightarrow> score | Inl e \<Rightarrow> 0)"

definition computed_scores ::
  "float_ops \<Rightarrow> simple_vector_store \<Rightarrow> string \<Rightarrow> (real \<times> nat) list" where
  "computed_scores fl vs query =
     map (\<lambda>j. (chunk_score fl vs (tokenize query) (documents vs ! j), j))
       [0..<length (documents vs)]"

text \<open>The ranking of a query: every stored chunk's computed score and position, sorted,
  cut at \<^verbatim>\<open>top_k\<close>.\<close>

definition ranking ::
  "float_ops \<Rightarrow> simple_vector_store \<Rightarrow> string \<Rightarrow> int \<Rightarrow> (real \<times> nat) list" where
  "ranking fl vs query top_k = slice_to (sort_scores (computed_scores fl vs query)) top_k"

text \<open>The ranking order on pairs of a score and an insertion position: the higher score
  first and, for equal scores, the earlier position first.\<close>

definition ranks_before :: "real \<times> nat \<Rightarrow> real \<times> nat \<Rightarrow> bool" where
  "ranks_before p q = (fst p > fst q \<or> (fst p = fst q \<and> snd p < snd q))"

text \<open>The combined length of a list of sentences, without separators.\<close>

definition total_length :: "string list \<Rightarrow> int" where
  "total_length ss = sum_list (map (\<lambda>s. int (length s)) ss)"

subsection \<open>The sentences of the chunks\<close>

text \<open>The chunks of \<^verbatim>\<open>chunk_text\<close> keep only the joined text of their sentences. To speak
  of the sentences of a chunk, \<open>group_step\<close> and \<open>chunk_groups\<close> repeat the loop of
  \<^verbatim>\<open>chunk_text\<close> with the list \<^verbatim>\<open>current_chunk\<close> kept in place of the dict built from
  it, and \<open>chunks_of\<close> builds the dicts; \<open>chunk_text_groups\<close> below proves that
  \<^verbatim>\<open>chunk_text\<close> returns exactly these dicts.\<close>

definition group_step ::
  "text_chunker \<Rightarrow> string list list \<times> string list \<times> int \<Rightarrow> string \<Rightarrow>
   string list list \<times> string list \<times> int" where
  "group_step c st sentence =
     (case st of (groups, current_chunk, current_length) \<Rightarrow>
        if current_length + int (length sentence) \<le> chunk_size c
        then (groups, current_chunk @ [sentence], current_length + int (length sentence) + 1)
        else
          (let groups' = (if current_chunk \<noteq> [] then groups @ [current_chunk] else groups);
               current_chunk' = get_overlap_sentences c current_chunk @ [sentence]
           in (groups', current_chunk',
               sum_list (map (\<lambda>s. int (length s)) current_chunk') + int (length current_chunk'))))"

definition chunk_groups :: "text_chunker \<Rightarrow> string \<Rightarrow> string list list" where
  "chunk_groups c text =
     (if text = [] \<or> strip text = [] then []
      else
        (case foldl (group_step c) ([], [], 0) (split_into_sentences (strip text)) of
           (groups, current_chunk, current_length) \<Rightarrow>
             if current_chunk \<noteq> [] then groups @ [current_chunk] else groups))"

definition chunks_of :: "string list list \<Rightarrow> pydict list" where
  "chunks_of groups = map (\<lambda>p. make_chunk (snd p) (fst p)) (enumerate 0 groups)"

subsection \<open>An example index\<close>

text \<open>The corpus of two chunks \<^verbatim>\<open>the cat sat\<close> and \<^verbatim>\<open>the dog ran\<close>, as the index holds it
  after the two texts are added as two documents to a service with \<^verbatim>\<open>chunk_size = 500\<close>
  and \<^verbatim>\<open>chunk_overlap = 50\<close> (\<open>example_run\<close> below). In the examples the float
  operations are \<open>exact\<close> and the digest of a text is the text itself, so the hash set
  holds the texts.\<close>

definition example_doc :: "string \<Rightarrow> pydict" where
  "example_doc t =
     [''text'' \<mapsto> PStr t,
      ''char_count'' \<mapsto> PInt (int (length t)),
      ''chunk_id'' \<mapsto> PInt 0,
      ''document_id'' \<mapsto> PNone,
      ''tokens'' \<mapsto> PList (tokenize t),
      ''tf'' \<mapsto> PDict (compute_tf exact (tokenize t))]"

definition example_store :: simple_vector_store where
  "example_store =
     \<lparr>documents = [example_doc ''the cat sat'', example_doc ''the dog ran''],
      doc_freqs = (\<lambda>term. if term = ''the'' then 2
                           else if term \<in> {''cat'', ''sat'', ''dog'', ''ran''} then 1 else 0),
      total_docs = 2\<rparr>"

definition example_ops :: "operation list" where
  "example_ops = [AddDocument ''the cat sat'' None, AddDocument ''the dog ran'' None]"

definition example_system :: rag_system where
  "example_system =
     \<lparr>chunker = \<lparr>chunk_size = 500, chunk_overlap = 50\<rparr>,
      vector_store = example_store,
      document_hashes = {|''the dog ran'', ''the cat sat''|}\<rparr>"

section \<open>Properties of the chunker and of ingestion\<close>

lemma make_chunk_text: "make_chunk ss n ''text'' = Some (PStr (join '' '' ss))"
  by (simp add: make_chunk_def Let_def)

lemma fresh_make_chunk: "fresh_chunk (make_chunk ss n)"
  by (auto simp: fresh_chunk_def make_chunk_def Let_def)

lemma foldl_chunk_step_fresh:
  assumes "list_all fresh_chunk chunks"
    and "foldl (chunk_step c) (chunks, cur, len) sents = (chunks', cur', len')"
  shows "list_all fresh_chunk chunks'"
  using assms
proof (induction sents arbitrary: chunks cur len)
  case Nil
  then show ?case by simp
next
  case (Cons s sents)
  obtain chunks1 cur1 len1 where st: "chunk_step c (chunks, cur, len) s = (chunks1, cur1, len1)"
    by (cases "chunk_step c (chunks, cur, len) s") auto
  have "list_all fresh_chunk chunks1"
    using st Cons.prems(1)
    by (auto simp: chunk_step_def Let_def fresh_make_chunk split: if_splits)
  moreover have "foldl (chunk_step c) (chunks1, cur1, len1) sents = (chunks', cur', len')"
    using Cons.prems(2) st by simp
  ultimately show ?case by (rule Cons.IH)
qed

lemma chunk_text_fresh: "list_all fresh_chunk (chunk_text c text)"
proof -
  obtain chunks cur len where
    f: "foldl (chunk_step c) ([], [], 0) (split_into_sentences (strip text)) = (chunks, cur, len)"
    by (cases "foldl (chunk_step c) ([], [], 0) (split_into_sentences (strip text))") auto
  have "list_all fresh_chunk chunks"
    using foldl_chunk_step_fresh [OF _ f] by simp
  with f show ?thesis
    by (auto simp: chunk_text_def fresh_make_chunk split: if_splits)
qed

lemma add_chunk_fresh:
  "fresh_chunk d \<Longrightarrow> \<exists>vs'. add_chunk fl i vs d = Inr vs'"
  by (auto simp: add_chunk_def fresh_chunk_def Let_def split: option.splits pyval.splits)

lemma add_documents_total:
  "list_all fresh_chunk chunks \<Longrightarrow> \<exists>vs'. add_documents fl vs chunks i = Inr vs'"
proof (induction chunks arbitrary: vs)
  case Nil
  then show ?case by simp
next
  case (Cons d chunks)
  then obtain vs1 where "add_chunk fl i vs d = Inr vs1"
    using add_chunk_fresh by fastforce
  with Cons show ?case by simp
qed

lemma add_document_total:
  assumes "h text = Inr d"
  shows "\<exists>n rs'. add_document fl h rs text i = Inr (n, rs')"
proof (cases "d |\<in>| document_hashes rs")
  case True
  with assms show ?thesis by (simp add: add_document_def)
next
  case False
  obtain vs' where "add_documents fl (vector_store rs) (chunk_text (chunker rs) text) i = Inr vs'"
    using add_documents_total chunk_text_fresh by blast
  with False assms show ?thesis by (simp add: add_document_def Let_def)
qed

lemma add_document_raises: "add_document fl h rs text i = Inl e \<longleftrightarrow> h text = Inl e"
proof (cases "h text")
  case (Inl e')
  then show ?thesis by (simp add: add_document_def)
next
  case (Inr d)
  from add_document_total [where h = h, OF this] obtain n rs' where
    "add_document fl h rs text i = Inr (n, rs')" by blast
  with Inr show ?thesis by simp
qed

lemma add_document_records_hash:
  "add_document fl h rs text i = Inr (n, rs') \<Longrightarrow>
   \<exists>d. h text = Inr d \<and> d |\<in>| document_hashes rs'"
  by (auto simp: add_document_def Let_def split: if_splits sum.splits)

lemma strip_empty_chunks: "strip text = [] \<Longrightarrow> chunk_text c text = []"
  by (simp add: chunk_text_def)

lemma foldl_bump:
  "distinct xs \<Longrightarrow>
   foldl (\<lambda>df term. df(term := Suc (df term))) df xs t = df t + (if t \<in> set xs then 1 else 0)"
  by (induction xs arbitrary: df) auto

lemma chunks_containing_append:
  "chunks_containing (docs @ [d]) t =
   chunks_containing docs t + (if t \<in> set (chunk_tokens d) then 1 else 0)"
  by (simp add: chunks_containing_def)

lemma add_chunk_result:
  assumes "fresh_chunk d"
  shows "\<exists>d'. add_chunk fl i vs d =
           Inr \<lparr>documents = documents vs @ [d'],
                doc_freqs = (\<lambda>t. doc_freqs vs t +
                                   (if t \<in> set (tokenize (text_of d)) then 1 else 0)),
                total_docs = total_docs vs + 1\<rparr> \<and>
         stored_chunk fl d' \<and> text_of d' = text_of d \<and>
         chunk_tokens d' = tokenize (text_of d)"
proof -
  from assms obtain t where t: "d ''text'' = Some (PStr t)"
    and dm: "dom d = {''text'', ''char_count'', ''chunk_id''}"
    by (auto simp: fresh_chunk_def split: option.splits pyval.splits)
  let ?d' = "d(''document_id'' \<mapsto> (case i of None \<Rightarrow> PNone | Some j \<Rightarrow> PStr j),
               ''tokens'' \<mapsto> PList (tokenize t),
               ''tf'' \<mapsto> PDict (compute_tf fl (tokenize t)))"
  have df: "foldl (\<lambda>df term. df(term := df term + 1)) (doc_freqs vs) (remdups (tokenize t)) =
            (\<lambda>u. doc_freqs vs u + (if u \<in> set (tokenize t) then 1 else 0))"
    by (rule ext) (simp add: foldl_bump)
  have a: "add_chunk fl i vs d =
          Inr \<lparr>documents = documents vs @ [?d'],
               doc_freqs = (\<lambda>u. doc_freqs vs u + (if u \<in> set (tokenize t) then 1 else 0)),
               total_docs = total_docs vs + 1\<rparr>"
    using t df by (simp add: add_chunk_def Let_def)
  have b: "stored_chunk fl ?d'"
    using t dm by (auto simp: stored_chunk_def text_of_def)
  have c1: "text_of ?d' = t" and c2: "text_of d = t" and c3: "chunk_tokens ?d' = tokenize t"
    using t by (simp_all add: text_of_def chunk_tokens_def)
  show ?thesis
    unfolding c2 by (rule exI [of _ ?d']) (intro conjI a b c1 c3)
qed

lemma add_chunk_well_formed:
  assumes "fresh_chunk d" "well_formed fl vs" "add_chunk fl i vs d = Inr vs'"
  shows "well_formed fl vs'"
proof -
  from add_chunk_result [OF assms(1), of fl i vs] assms(3) obtain d' where
    vs': "vs' = \<lparr>documents = documents vs @ [d'],
                doc_freqs = (\<lambda>t. doc_freqs vs t +
                                   (if t \<in> set (tokenize (text_of d)) then 1 else 0)),
                total_docs = total_docs vs + 1\<rparr>"
    and d': "stored_chunk fl d'" "chunk_tokens d' = tokenize (text_of d)"
    by auto
  show ?thesis
    using assms(2) d'
    by (simp add: vs' well_formed_def index_invariant_def chunks_containing_append)
qed

lemma add_documents_well_formed:
  "list_all fresh_chunk chunks \<Longrightarrow> well_formed fl vs \<Longrightarrow> add_documents fl vs chunks i = Inr vs' \<Longrightarrow>
   well_formed fl vs'"
proof (induction chunks arbitrary: vs)
  case Nil
  then show ?case by simp
next
  case (Cons d chunks)
  from Cons.prems(3) obtain vs1 where
    s1: "add_chunk fl i vs d = Inr vs1" and s2: "add_documents fl vs1 chunks i = Inr vs'"
    by (auto split: sum.splits)
  have "well_formed fl vs1"
    using add_chunk_well_formed [OF _ Cons.prems(2) s1] Cons.prems(1) by simp
  then show ?case
    using Cons.IH [OF _ _ s2] Cons.prems(1) by simp
qed

lemma add_document_well_formed:
  assumes "well_formed fl (vector_store rs)" "add_document fl h rs text i = Inr (n, rs')"
  shows "well_formed fl (vector_store rs')"
proof -
  from assms(2) obtain d where d: "h text = Inr d"
    by (auto simp: add_document_def split: sum.splits)
  show ?thesis
  proof (cases "d |\<in>| document_hashes rs")
    case True
    with assms d show ?thesis by (simp add: add_document_def)
  next
    case False
    with assms(2) d obtain vs' where
      a: "add_documents fl (vector_store rs) (chunk_text (chunker rs) text) i = Inr vs'"
      and r: "vector_store rs' = vs'"
      by (auto simp: add_document_def Let_def split: sum.splits)
    show ?thesis
      using add_documents_well_formed [OF chunk_text_fresh assms(1) a] r by simp
  qed
qed

lemma well_formed_init: "well_formed fl SimpleVectorStore_init"
  by (simp add: well_formed_def index_invariant_def SimpleVectorStore_init_def
      chunks_containing_def)

lemma well_formed_clear: "well_formed fl (store_clear vs)"
  by (simp add: well_formed_def index_invariant_def store_clear_def chunks_containing_def)

lemma score_terms_stored:
  assumes "d ''tf'' = Some (PDict tfs)"
  shows "score_terms fl vs d a q =
         Inr (foldl (\<lambda>s t. case tfs t of None \<Rightarrow> s
                            | Some tf \<Rightarrow> fadd fl s (fmul fl tf (compute_idf vs t))) a q)"
  using assms by (induction q arbitrary: a) (auto split: option.splits)

lemma score_doc_stored:
  assumes "stored_chunk fl d"
  shows "score_doc fl vs q d = Inr (chunk_score fl vs q d)"
proof -
  from assms have "d ''tf'' = Some (PDict (compute_tf fl (tokenize (text_of d))))"
    by (simp add: stored_chunk_def)
  from score_terms_stored [where d = d, OF this] show ?thesis
    by (simp add: score_doc_def chunk_score_def)
qed

lemma compute_idf_spec: "0 < total_docs vs \<Longrightarrow> compute_idf vs t = spec_IDF vs t"
  by (simp add: compute_idf_def spec_IDF_def Let_def)

lemma score_step_spec:
  assumes "zero_laws fl" "0 < total_docs vs"
  shows "(case compute_tf fl tokens t of None \<Rightarrow> s
          | Some tf \<Rightarrow> fadd fl s (fmul fl tf (compute_idf vs t))) =
         fadd fl s (fmul fl (if tokens = [] then 0
                             else fdiv fl (real (count_list tokens t)) (real (length tokens)))
                      (spec_IDF vs t))"
proof -
  from assms(1) have z: "\<And>y. 0 < y \<Longrightarrow> fdiv fl 0 y = 0" "\<And>y. fmul fl 0 y = 0"
    "\<And>x. fadd fl x 0 = x"
    by (simp_all add: zero_laws_def)
  show ?thesis
  proof (cases "t \<in> set tokens")
    case True
    then have "tokens \<noteq> []" by auto
    with True show ?thesis
      by (simp add: compute_tf_def Let_def compute_idf_spec [OF assms(2)])
  next
    case False
    then have "count_list tokens t = 0" by (simp add: count_list_0_iff)
    with False show ?thesis
      by (simp add: compute_tf_def Let_def z)
  qed
qed

lemma score_step_present:
  assumes "0 < total_docs vs"
  shows "(case compute_tf fl tokens t of None \<Rightarrow> s
          | Some tf \<Rightarrow> fadd fl s (fmul fl tf (compute_idf vs t))) =
         (if t \<in> set tokens
          then fadd fl s (fmul fl (if tokens = [] then 0
                                   else fdiv fl (real (count_list tokens t)) (real (length tokens)))
                           (spec_IDF vs t))
          else s)"
  by (auto simp: compute_tf_def Let_def compute_idf_spec [OF assms])

lemma chunk_score_spec:
  assumes "stored_chunk fl d" "0 < total_docs vs" "zero_laws fl"
  shows "chunk_score fl vs q d = spec_score fl vs d q"
proof -
  from assms(1) have "d ''tf'' = Some (PDict (compute_tf fl (tokenize (text_of d))))"
    by (simp add: stored_chunk_def)
  from score_terms_stored [where d = d, OF this] show ?thesis
    by (simp add: score_doc_def chunk_score_def spec_score_def spec_TF_def Let_def
        score_step_spec [OF assms(3) assms(2)])
qed

lemma score_documents_computed:
  assumes "list_all (stored_chunk fl) docs"
  shows "score_documents fl vs q docs i =
         Inr (map (\<lambda>j. (chunk_score fl vs q (docs ! j), i + j)) [0..<length docs])"
  using assms
proof (induction docs arbitrary: i)
  case Nil
  then show ?case by simp
next
  case (Cons d docs)
  have m: "map (\<lambda>j. (chunk_score fl vs q ((d # docs) ! j), i + j)) [0..<length (d # docs)] =
        (chunk_score fl vs q d, i) #
        map (\<lambda>j. (chunk_score fl vs q (docs ! j), Suc i + j)) [0..<length docs]"
    by (simp add: upt_conv_Cons map_Suc_upt [symmetric] del: upt_Suc)
  show ?case
    unfolding m using Cons score_doc_stored [of fl d vs q] by simp
qed

lemma score_documents_scores:
  assumes "well_formed fl vs"
  shows "score_documents fl vs (tokenize query) (documents vs) 0 =
         Inr (computed_scores fl vs query)"
proof -
  from assms have "list_all (stored_chunk fl) (documents vs)"
    by (simp add: well_formed_def)
  then show ?thesis
    using score_documents_computed [of fl "documents vs" vs "tokenize query" 0]
    by (simp add: computed_scores_def)
qed

lemma search_ranked:
  assumes "well_formed fl vs" "tokenize query \<noteq> []"
  shows "search fl vs query top_k =
         Inr (map (make_result (documents vs))
                (slice_to (sort_scores (computed_scores fl vs query)) top_k))"
proof (cases "documents vs = []")
  case True
  then show ?thesis
    by (simp add: search_def computed_scores_def sort_scores_def slice_to_def)
next
  case False
  then show ?thesis
    using assms by (simp add: search_def Let_def score_documents_scores)
qed

lemma computed_scores_present:
  assumes "well_formed fl vs"
  shows "computed_scores fl vs query =
         map (\<lambda>j. (foldl (\<lambda>s t. if t \<in> set (tokenize (text_of (documents vs ! j)))
                                  then fadd fl s (fmul fl (spec_TF fl (documents vs ! j) t)
                                                   (spec_IDF vs t))
                                  else s) 0 (tokenize query), j))
           [0..<length (documents vs)]"
  unfolding computed_scores_def
proof (rule map_cong [OF refl])
  fix j assume "j \<in> set [0..<length (documents vs)]"
  then have j: "j < length (documents vs)" by simp
  with assms have st: "stored_chunk fl (documents vs ! j)"
    by (simp add: well_formed_def list_all_length)
  from j assms have n: "0 < total_docs vs"
    by (auto simp: well_formed_def index_invariant_def)
  from st have "(documents vs ! j) ''tf'' =
      Some (PDict (compute_tf fl (tokenize (text_of (documents vs ! j)))))"
    by (simp add: stored_chunk_def)
  from score_terms_stored [where d = "documents vs ! j", OF this]
  show "(chunk_score fl vs (tokenize query) (documents vs ! j), j) =
        (foldl (\<lambda>s t. if t \<in> set (tokenize (text_of (documents vs ! j)))
                       then fadd fl s (fmul fl (spec_TF fl (documents vs ! j) t) (spec_IDF vs t))
                       else s) 0 (tokenize query), j)"
    by (simp add: score_doc_def chunk_score_def spec_TF_def Let_def
        score_step_present [OF n] cong: if_cong)
qed

lemma computed_scores_spec:
  assumes "well_formed fl vs" "zero_laws fl"
  shows "computed_scores fl vs query =
         map (\<lambda>j. (spec_score fl vs (documents vs ! j) (tokenize query), j))
           [0..<length (documents vs)]"
  unfolding computed_scores_def
proof (rule map_cong [OF refl])
  fix j assume "j \<in> set [0..<length (documents vs)]"
  then have j: "j < length (documents vs)" by simp
  with assms have st: "stored_chunk fl (documents vs ! j)"
    by (simp add: well_formed_def list_all_length)
  from j assms have n: "0 < total_docs vs"
    by (auto simp: well_formed_def index_invariant_def)
  show "(chunk_score fl vs (tokenize query) (documents vs ! j), j) =
        (spec_score fl vs (documents vs ! j) (tokenize query), j)"
    by (simp add: chunk_score_spec [OF st n assms(2)])
qed

lemma zero_laws_exact: "zero_laws exact"
  by (simp add: zero_laws_def exact_def)

lemma search_fallback:
  "tokenize query = [] \<Longrightarrow> search fl vs query top_k = Inr (slice_to (documents vs) top_k)"
  by (simp add: search_def slice_to_def)

lemma search_total: "well_formed fl vs \<Longrightarrow> \<exists>results. search fl vs query top_k = Inr results"
  by (cases "tokenize query = []") (simp_all add: search_fallback search_ranked)

text \<open>Insertion into a ranking, for the sort.\<close>

lemma insort_ranks:
  assumes "sorted_wrt (\<lambda>p q. ranks_before q p) ys" "\<forall>q\<in>set ys. snd q < snd w"
  shows "sorted_wrt (\<lambda>p q. ranks_before q p) (insort_key fst w ys)"
  using assms
proof (induction ys)
  case Nil
  then show ?case by simp
next
  case (Cons y ys)
  show ?case
  proof (cases "fst w \<le> fst y")
    case True
    have "ranks_before q w" if "q \<in> set (y # ys)" for q
    proof -
      have "fst y \<le> fst q"
        using that Cons.prems(1) by (auto simp: ranks_before_def)
      with True have "fst w \<le> fst q" by simp
      moreover have "snd q < snd w" using that Cons.prems(2) by auto
      ultimately show ?thesis by (auto simp: ranks_before_def)
    qed
    with True Cons.prems(1) show ?thesis by simp
  next
    case False
    then have "ranks_before w y" by (simp add: ranks_before_def)
    moreover have "sorted_wrt (\<lambda>p q. ranks_before q p) (insort_key fst w ys)"
      using Cons by simp
    ultimately show ?thesis
      using False Cons.prems(1) by (auto simp: set_insort_key)
  qed
qed

lemma sort_key_ranks:
  "sorted_wrt (\<lambda>p q. snd q < snd p) ws \<Longrightarrow>
   sorted_wrt (\<lambda>p q. ranks_before q p) (sort_key fst ws)"
proof (induction ws)
  case Nil
  then show ?case by simp
next
  case (Cons w ws)
  then have "sorted_wrt (\<lambda>p q. ranks_before q p) (sort_key fst ws)" by simp
  moreover have "\<forall>q\<in>set (sort_key fst ws). snd q < snd w"
    using Cons.prems by simp
  ultimately show ?case by (simp add: insort_ranks)
qed

lemma sort_scores_ranks:
  assumes "sorted_wrt (\<lambda>p q. snd p < snd q) scores"
  shows "sorted_wrt ranks_before (sort_scores scores)"
proof -
  have "sorted_wrt (\<lambda>p q. snd q < snd p) (rev scores)"
    using assms by (simp add: sorted_wrt_rev)
  then have "sorted_wrt (\<lambda>p q. ranks_before q p) (sort_key fst (rev scores))"
    by (rule sort_key_ranks)
  then show ?thesis by (simp add: sort_scores_def sorted_wrt_rev)
qed

lemma computed_scores_positions: "sorted_wrt (\<lambda>p q. snd p < snd q) (computed_scores fl vs query)"
  by (simp add: computed_scores_def sorted_wrt_map sorted_wrt_upt [unfolded sorted_wrt_iff_nth_less] sorted_wrt_iff_nth_less)

lemma slice_to_take: "\<exists>m. slice_to xs k = take m xs"
  by (auto simp: slice_to_def)

lemma ranking_sorted:
  "sorted_wrt ranks_before (slice_to (sort_scores (computed_scores fl vs query)) top_k)"
proof -
  obtain m where "slice_to (sort_scores (computed_scores fl vs query)) top_k =
      take m (sort_scores (computed_scores fl vs query))"
    using slice_to_take by blast
  then show ?thesis
    using sort_scores_ranks [OF computed_scores_positions, of fl vs query]
    by (simp add: sorted_wrt_take)
qed

lemma ranking_subset:
  "set (slice_to (sort_scores (computed_scores fl vs query)) top_k) \<subseteq> set (computed_scores fl vs query)"
proof -
  obtain m where "slice_to (sort_scores (computed_scores fl vs query)) top_k =
      take m (sort_scores (computed_scores fl vs query))"
    using slice_to_take by blast
  then show ?thesis
    using set_take_subset [of m "sort_scores (computed_scores fl vs query)"]
    by (simp add: sort_scores_def)
qed

lemma make_result_fields:
  assumes "stored_chunk fl (docs ! i)"
  shows "dom (make_result docs (s, i)) =
           {''text'', ''char_count'', ''chunk_id'', ''document_id'', ''score''}"
    and "make_result docs (s, i) ''score'' = Some (PFloat s)"
    and "make_result docs (s, i) ''tokens'' = None"
    and "make_result docs (s, i) ''tf'' = None"
    and "make_result docs (s, i) ''text'' = Some (PStr (text_of (docs ! i)))"
    and "make_result docs (s, i) ''char_count'' = (docs ! i) ''char_count''"
    and "make_result docs (s, i) ''chunk_id'' = (docs ! i) ''chunk_id''"
    and "make_result docs (s, i) ''document_id'' = (docs ! i) ''document_id''"
proof -
  from assms have dm: "dom (docs ! i) =
      {''text'', ''char_count'', ''chunk_id'', ''document_id'', ''tokens'', ''tf''}"
    and tx: "(docs ! i) ''text'' = Some (PStr (text_of (docs ! i)))"
    by (simp_all add: stored_chunk_def)
  show "dom (make_result docs (s, i)) =
           {''text'', ''char_count'', ''chunk_id'', ''document_id'', ''score''}"
    using dm by (auto simp: make_result_def)
  show "make_result docs (s, i) ''score'' = Some (PFloat s)"
    and "make_result docs (s, i) ''tokens'' = None"
    and "make_result docs (s, i) ''tf'' = None"
    and "make_result docs (s, i) ''char_count'' = (docs ! i) ''char_count''"
    and "make_result docs (s, i) ''chunk_id'' = (docs ! i) ''chunk_id''"
    and "make_result docs (s, i) ''document_id'' = (docs ! i) ''document_id''"
    by (simp_all add: make_result_def)
  show "make_result docs (s, i) ''text'' = Some (PStr (text_of (docs ! i)))"
    using tx by (simp add: make_result_def)
qed

lemma computed_scores_index: "p \<in> set (computed_scores fl vs query) \<Longrightarrow> snd p < length (documents vs)"
  by (auto simp: computed_scores_def)

lemma ranking_entries:
  assumes "well_formed fl vs" "p \<in> set (ranking fl vs query top_k)"
  shows "snd p < length (documents vs)"
    and "score_doc fl vs (tokenize query) (documents vs ! snd p) = Inr (fst p)"
    and "make_result (documents vs) p ''score'' = Some (PFloat (fst p))"
    and "make_result (documents vs) p ''text'' = (documents vs ! snd p) ''text''"
proof -
  from assms(2) have "p \<in> set (computed_scores fl vs query)"
    unfolding ranking_def using ranking_subset by blast
  then obtain j where j: "j < length (documents vs)"
    and p: "p = (chunk_score fl vs (tokenize query) (documents vs ! j), j)"
    by (auto simp: computed_scores_def)
  from j assms(1) have st: "stored_chunk fl (documents vs ! j)"
    by (simp add: well_formed_def list_all_length)
  show "snd p < length (documents vs)" using j p by simp
  show "score_doc fl vs (tokenize query) (documents vs ! snd p) = Inr (fst p)"
    using score_doc_stored [OF st] p by simp
  show "make_result (documents vs) p ''score'' = Some (PFloat (fst p))"
    by (cases p) (simp add: make_result_def)
  show "make_result (documents vs) p ''text'' = (documents vs ! snd p) ''text''"
    by (cases p) (simp add: make_result_def)
qed

lemma texts_of_total:
  "list_all (\<lambda>d. d ''text'' = Some (PStr (text_of d))) ds \<Longrightarrow> texts_of ds = Inr (map text_of ds)"
  by (induction ds) auto

lemma stored_chunks_text:
  "list_all (stored_chunk fl) ds \<Longrightarrow> list_all (\<lambda>d. d ''text'' = Some (PStr (text_of d))) ds"
  by (simp add: list_all_iff stored_chunk_def)

lemma get_all_text_total:
  "well_formed fl vs \<Longrightarrow> \<exists>t. get_all_text vs = Inr t"
  using texts_of_total [OF stored_chunks_text, of fl "documents vs"]
  by (simp add: get_all_text_def well_formed_def)

lemma search_results_text:
  assumes "well_formed fl vs" "search fl vs query top_k = Inr results"
  shows "list_all (\<lambda>d. d ''text'' = Some (PStr (text_of d))) results"
proof (cases "tokenize query = []")
  case True
  then have "results = slice_to (documents vs) top_k"
    using assms(2) by (simp add: search_fallback)
  then have "set results \<subseteq> set (documents vs)"
    by (auto simp: slice_to_def dest: in_set_takeD)
  with assms(1) show ?thesis
    by (auto simp: list_all_iff well_formed_def stored_chunk_def)
next
  case False
  then have r: "results = map (make_result (documents vs))
      (slice_to (sort_scores (computed_scores fl vs query)) top_k)"
    using assms by (simp add: search_ranked)
  have "make_result (documents vs) p ''text'' = Some (PStr (text_of (make_result (documents vs) p)))"
    if "p \<in> set (slice_to (sort_scores (computed_scores fl vs query)) top_k)" for p
  proof -
    have "snd p < length (documents vs)"
      using that ranking_subset computed_scores_index by blast
    then have "stored_chunk fl (documents vs ! snd p)"
      using assms(1) by (simp add: well_formed_def list_all_length)
    from make_result_fields(5) [OF this, of "fst p"] show ?thesis
      by (simp add: text_of_def)
  qed
  then show ?thesis by (simp add: r list_all_iff)
qed

lemma get_relevant_context_total:
  assumes "well_formed fl (vector_store rs)"
  shows "\<exists>t. get_relevant_context fl rs query top_k = Inr t"
proof -
  obtain results where s: "search fl (vector_store rs) query top_k = Inr results"
    using search_total [OF assms] by blast
  have "texts_of results = Inr (map text_of results)"
    using search_results_text [OF assms s] by (rule texts_of_total)
  moreover obtain t where "get_all_text (vector_store rs) = Inr t"
    using get_all_text_total [OF assms] by blast
  ultimately show ?thesis
    using s by (simp add: get_relevant_context_def)
qed

lemma perform_well_formed:
  assumes "well_formed fl (vector_store rs)" "perform fl h rs oper = Inr rs'"
  shows "well_formed fl (vector_store rs') \<and> chunker rs' = chunker rs"
proof (cases oper)
  case (AddDocument tx i)
  with assms(2) obtain n where a: "add_document fl h rs tx i = Inr (n, rs')"
    by (auto simp: perform_def split: sum.splits)
  moreover have "chunker rs' = chunker rs"
    using a by (auto simp: add_document_def Let_def split: if_splits sum.splits)
  ultimately show ?thesis
    using add_document_well_formed [OF assms(1) a] by simp
next
  case (Search query k)
  with assms show ?thesis by (auto simp: perform_def split: sum.splits)
next
  case (GetRelevantContext query k)
  with assms show ?thesis by (auto simp: perform_def split: sum.splits)
next
  case GetFullContext
  with assms show ?thesis by (auto simp: perform_def split: sum.splits)
next
  case GetStats
  with assms show ?thesis by (simp add: perform_def)
next
  case Clear
  with assms(2) show ?thesis by (auto simp: perform_def clear_def well_formed_clear)
qed

lemma run_well_formed:
  "well_formed fl (vector_store rs) \<Longrightarrow>
   well_formed fl (vector_store (run fl h rs ops)) \<and> chunker (run fl h rs ops) = chunker rs"
proof (induction ops arbitrary: rs)
  case Nil
  then show ?case by simp
next
  case (Cons oper ops)
  show ?case
  proof (cases "perform fl h rs oper")
    case (Inl e)
    then show ?thesis using Cons.IH [OF Cons.prems] by simp
  next
    case (Inr rs1)
    from perform_well_formed [OF Cons.prems Inr]
    have w: "well_formed fl (vector_store rs1)" and c: "chunker rs1 = chunker rs"
      by simp_all
    from Cons.IH [OF w] c Inr show ?thesis by simp
  qed
qed

lemma run_from_well_formed:
  "\<exists>rs. run_from fl h cs co ops = Inr rs \<and> well_formed fl (vector_store rs) \<and>
        chunker rs = \<lparr>chunk_size = cs, chunk_overlap = co\<rparr>"
  using run_well_formed [where fl = fl and h = h and ops = ops and
      rs = "\<lparr>chunker = \<lparr>chunk_size = cs, chunk_overlap = co\<rparr>,
      vector_store = SimpleVectorStore_init, document_hashes = {||}\<rparr>"]
  by (simp add: run_from_def RAGSystem_init_def TextChunker_init_def well_formed_init)

lemma tokenize_cat: "tokenize ''the cat sat'' = [''the'', ''cat'', ''sat'']"
  by code_simp

lemma tokenize_dog: "tokenize ''the dog ran'' = [''the'', ''dog'', ''ran'']"
  by code_simp

lemma tokenize_query: "tokenize ''cat'' = [''cat'']" "tokenize ''the'' = [''the'']"
  "tokenize ''??'' = []" "tokenize ''dog'' = [''dog'']"
  by code_simp+

lemma chunk_text_example:
  "chunk_text \<lparr>chunk_size = 500, chunk_overlap = 50\<rparr> ''the cat sat'' =
     [make_chunk [''the cat sat''] 0]"
  "chunk_text \<lparr>chunk_size = 500, chunk_overlap = 50\<rparr> ''the dog ran'' =
     [make_chunk [''the dog ran''] 0]"
proof -
  have s: "strip ''the cat sat'' = ''the cat sat''" "strip ''the dog ran'' = ''the dog ran''"
    by code_simp+
  have p: "split_into_sentences ''the cat sat'' = [''the cat sat'']"
    "split_into_sentences ''the dog ran'' = [''the dog ran'']"
    by code_simp+
  show "chunk_text \<lparr>chunk_size = 500, chunk_overlap = 50\<rparr> ''the cat sat'' =
     [make_chunk [''the cat sat''] 0]"
    by (simp add: chunk_text_def s p chunk_step_def)
  show "chunk_text \<lparr>chunk_size = 500, chunk_overlap = 50\<rparr> ''the dog ran'' =
     [make_chunk [''the dog ran''] 0]"
    by (simp add: chunk_text_def s p chunk_step_def)
qed

lemma example_doc_stored: "stored_chunk exact (example_doc t)"
  by (auto simp: stored_chunk_def example_doc_def text_of_def)

lemma example_doc_tokens: "chunk_tokens (example_doc t) = tokenize t"
  by (simp add: chunk_tokens_def example_doc_def)

lemma example_well_formed: "well_formed exact example_store"
  by (auto simp: well_formed_def index_invariant_def example_store_def example_doc_stored
      chunks_containing_def example_doc_tokens tokenize_cat tokenize_dog)

lemma add_example_chunk:
  "add_chunk exact None vs (make_chunk [t] 0) =
     Inr \<lparr>documents = documents vs @ [example_doc t],
          doc_freqs = (\<lambda>u. doc_freqs vs u + (if u \<in> set (tokenize t) then 1 else 0)),
          total_docs = total_docs vs + 1\<rparr>"
proof -
  have "foldl (\<lambda>df term. df(term := Suc (df term))) (doc_freqs vs) (remdups (tokenize t)) =
        (\<lambda>u. doc_freqs vs u + (if u \<in> set (tokenize t) then 1 else 0))"
    by (rule ext) (simp add: foldl_bump)
  then show ?thesis
    by (simp add: add_chunk_def make_chunk_def example_doc_def Let_def)
qed

lemma example_run: "run_from exact (\<lambda>t. Inr t) 500 50 example_ops = Inr example_system"
proof -
  have "(\<lambda>u. (if u \<in> set [''the'', ''cat'', ''sat''] then 1 else 0) +
             (if u \<in> set [''the'', ''dog'', ''ran''] then 1 else (0::nat))) =
        (\<lambda>term. if term = ''the'' then 2
                 else if term \<in> {''cat'', ''sat'', ''dog'', ''ran''} then 1 else 0)"
    by (rule ext) auto
  then show ?thesis
    by (simp add: run_from_def RAGSystem_init_def TextChunker_init_def example_ops_def
        perform_def add_document_def Let_def chunk_text_example add_example_chunk
        SimpleVectorStore_init_def example_system_def example_store_def
        tokenize_cat tokenize_dog)
qed

lemma chunks_containing_stored:
  "list_all (stored_chunk fl) docs \<Longrightarrow>
   chunks_containing docs term = length (filter (\<lambda>d. term \<in> set (tokenize (text_of d))) docs)"
  by (induction docs) (auto simp: chunks_containing_def chunk_tokens_def stored_chunk_def)

lemma example_scores:
  "computed_scores exact example_store ''cat'' = [(ln 2 / 3, 0), (0, 1)]"
  "computed_scores exact example_store ''dog'' = [(0, 0), (ln 2 / 3, 1)]"
  "computed_scores exact example_store ''the'' = [(0, 0), (0, 1)]"
  by (simp_all add: computed_scores_def chunk_score_def score_doc_def exact_def compute_tf_def
      compute_idf_def Let_def example_store_def example_doc_def tokenize_cat tokenize_dog
      tokenize_query upt_conv_Cons)

lemma add_single_chunk:
  assumes "add_documents fl vs [d] i = Inr vs'"
  shows "doc_freqs vs' t = doc_freqs vs t + (if t \<in> set (tokenize (text_of d)) then 1 else 0)"
    and "total_docs vs' = total_docs vs + 1"
proof -
  from assms obtain tx where tx: "d ''text'' = Some (PStr tx)"
    by (auto simp: add_chunk_def split: option.splits pyval.splits sum.splits)
  have f: "foldl (\<lambda>df term. df(term := Suc (df term))) (doc_freqs vs) (remdups (tokenize tx)) t =
        doc_freqs vs t + (if t \<in> set (tokenize tx) then 1 else 0)"
    by (simp add: foldl_bump)
  from assms tx have v: "vs' = \<lparr>documents = documents vs @
        [d(''document_id'' \<mapsto> (case i of None \<Rightarrow> PNone | Some j \<Rightarrow> PStr j),
           ''tokens'' \<mapsto> PList (tokenize tx), ''tf'' \<mapsto> PDict (compute_tf fl (tokenize tx)))],
      doc_freqs = foldl (\<lambda>df term. df(term := Suc (df term))) (doc_freqs vs) (remdups (tokenize tx)),
      total_docs = Suc (total_docs vs)\<rparr>"
    by (simp add: add_chunk_def Let_def)
  have "text_of d = tx" using tx by (simp add: text_of_def)
  then show "doc_freqs vs' t =
      doc_freqs vs t + (if t \<in> set (tokenize (text_of d)) then 1 else 0)"
    using f by (simp add: v)
  show "total_docs vs' = total_docs vs + 1" by (simp add: v)
qed

lemma ln_ratio_mono:
  fixes k n :: nat
  assumes "0 < k" "k \<le> n"
  shows "ln (real (n + 1) / real (k + 1)) \<le> ln (real n / real k)"
    and "k < n \<Longrightarrow> ln (real (n + 1) / real (k + 1)) < ln (real n / real k)"
proof -
  have pos: "0 < real (n + 1) / real (k + 1)" "0 < real n / real k"
    using assms by simp_all
  have "real (n + 1) * real k \<le> real n * real (k + 1)"
    using assms(2) by (simp add: algebra_simps)
  then have "real (n + 1) / real (k + 1) \<le> real n / real k"
    using assms(1) by (simp add: field_simps)
  then show "ln (real (n + 1) / real (k + 1)) \<le> ln (real n / real k)"
    using pos by simp
  assume "k < n"
  then have "real (n + 1) * real k < real n * real (k + 1)"
    by (simp add: algebra_simps)
  then have "real (n + 1) / real (k + 1) < real n / real k"
    using assms(1) by (simp add: field_simps)
  then show "ln (real (n + 1) / real (k + 1)) < ln (real n / real k)"
    using pos by simp
qed

section \<open>The overlap of consecutive chunks\<close>

lemma chunks_of_snoc:
  "chunks_of (gs @ [g]) = chunks_of gs @ [make_chunk g (length gs)]"
  by (simp add: chunks_of_def enumerate_append_eq)

lemma length_chunks_of: "length (chunks_of gs) = length gs"
  by (simp add: chunks_of_def)

lemma chunk_step_groups:
  "chunk_step c (chunks_of gs, cur, len) s =
     (case group_step c (gs, cur, len) s of (gs', cur', len') \<Rightarrow> (chunks_of gs', cur', len'))"
  by (simp add: chunk_step_def group_step_def Let_def chunks_of_snoc length_chunks_of)

lemma foldl_chunk_step_groups:
  "foldl (chunk_step c) (chunks_of gs, cur, len) ss =
     (case foldl (group_step c) (gs, cur, len) ss of
        (gs', cur', len') \<Rightarrow> (chunks_of gs', cur', len'))"
proof (induction ss arbitrary: gs cur len)
  case Nil
  then show ?case by simp
next
  case (Cons s ss)
  obtain gs1 cur1 len1 where g: "group_step c (gs, cur, len) s = (gs1, cur1, len1)"
    by (cases "group_step c (gs, cur, len) s") auto
  then have "chunk_step c (chunks_of gs, cur, len) s = (chunks_of gs1, cur1, len1)"
    by (simp add: chunk_step_groups)
  with g Cons.IH [of gs1 cur1 len1] show ?case by simp
qed

lemma chunk_text_groups: "chunk_text c text = chunks_of (chunk_groups c text)"
proof -
  have e: "chunks_of [] = []" by (simp add: chunks_of_def)
  obtain gs cur len where
    g: "foldl (group_step c) ([], [], 0) (split_into_sentences (strip text)) = (gs, cur, len)"
    by (cases "foldl (group_step c) ([], [], 0) (split_into_sentences (strip text))") auto
  then have "foldl (chunk_step c) ([], [], 0) (split_into_sentences (strip text)) =
      (chunks_of gs, cur, len)"
    using foldl_chunk_step_groups [of c "[]" "[]" 0 "split_into_sentences (strip text)"]
    by (simp add: e)
  with g show ?thesis
    by (simp add: chunk_text_def chunk_groups_def e chunks_of_snoc length_chunks_of)
qed

lemma overlap_loop_spec:
  "oc \<le> co \<Longrightarrow>
   \<exists>k\<le>length rs. overlap_loop co rs oc acc = rev (take k rs) @ acc \<and>
                  oc + total_length (take k rs) \<le> co"
proof (induction rs arbitrary: oc acc)
  case Nil
  then show ?case by (simp add: total_length_def)
next
  case (Cons s rs)
  show ?case
  proof (cases "oc + int (length s) \<le> co")
    case True
    from Cons.IH [OF True, of "s # acc"] obtain k where
      k: "k \<le> length rs"
      "overlap_loop co rs (oc + int (length s)) (s # acc) = rev (take k rs) @ s # acc"
      "oc + int (length s) + total_length (take k rs) \<le> co"
      by blast
    show ?thesis
      using True k by (intro exI [of _ "Suc k"]) (simp add: total_length_def)
  next
    case False
    with Cons.prems show ?thesis
      by (intro exI [of _ 0]) (simp add: total_length_def)
  qed
qed

lemma get_overlap_suffix:
  assumes "0 \<le> chunk_overlap c"
  shows "\<exists>pre. ss = pre @ get_overlap_sentences c ss"
    and "total_length (get_overlap_sentences c ss) \<le> chunk_overlap c"
proof -
  obtain k where k: "k \<le> length (rev ss)"
    "overlap_loop (chunk_overlap c) (rev ss) 0 [] = rev (take k (rev ss)) @ []"
    "0 + total_length (take k (rev ss)) \<le> chunk_overlap c"
    using overlap_loop_spec [OF assms, of "rev ss" "[]"] by blast
  have r: "rev (take k (rev ss)) = drop (length ss - k) ss"
    by (simp add: take_rev)
  have g: "get_overlap_sentences c ss = drop (length ss - k) ss"
    using k(2) r by (cases "ss = []") (simp_all add: get_overlap_sentences_def)
  have "ss = take (length ss - k) ss @ get_overlap_sentences c ss"
    by (simp add: g)
  then show "\<exists>pre. ss = pre @ get_overlap_sentences c ss" ..
  have "total_length (rev (take k (rev ss))) = total_length (take k (rev ss))"
    by (simp add: total_length_def rev_map [symmetric])
  with k(3) show "total_length (get_overlap_sentences c ss) \<le> chunk_overlap c"
    by (simp add: g r)
qed

lemma get_overlap_nonempty:
  assumes "ss \<noteq> []" "int (length (last ss)) \<le> chunk_overlap c"
  shows "get_overlap_sentences c ss \<noteq> []"
proof -
  obtain s rs where r: "rev ss = s # rs" and s: "s = last ss"
    using assms(1) by (cases ss rule: rev_cases) auto
  have le: "0 + int (length s) \<le> chunk_overlap c" using assms(2) s by simp
  then have "(0::int) + int (length s) \<le> chunk_overlap c" .
  from overlap_loop_spec [OF this, of rs "[s]"] obtain k where
    "overlap_loop (chunk_overlap c) rs (0 + int (length s)) [s] = rev (take k rs) @ [s]"
    by blast
  then show ?thesis
    using assms(1) r le by (simp add: get_overlap_sentences_def)
qed

lemma join_length:
  "int (length (join '' '' ss)) =
   total_length ss + (if ss = [] then 0 else int (length ss) - 1)"
  by (induction "'' ''" ss rule: join.induct) (simp_all add: total_length_def)

lemma get_overlap_subset:
  "0 \<le> chunk_overlap c \<Longrightarrow> set (get_overlap_sentences c ss) \<subseteq> set ss"
proof -
  assume "0 \<le> chunk_overlap c"
  then obtain pre where "ss = pre @ get_overlap_sentences c ss"
    using get_overlap_suffix(1) by blast
  then have "set ss = set pre \<union> set (get_overlap_sentences c ss)"
    by (metis set_append)
  then show ?thesis by blast
qed

lemma group_step_inv:
  assumes co: "0 \<le> chunk_overlap c"
    and ch: "\<forall>i. Suc i < length gs \<longrightarrow>
           (\<exists>rest. rest \<noteq> [] \<and> gs ! Suc i = get_overlap_sentences c (gs ! i) @ rest)"
    and cu: "gs \<noteq> [] \<longrightarrow> (\<exists>rest. rest \<noteq> [] \<and> cur = get_overlap_sentences c (last gs) @ rest)"
    and ne: "\<forall>g\<in>set gs. g \<noteq> []"
    and st: "group_step c (gs, cur, len) s = (gs', cur', len')"
  shows "(\<forall>i. Suc i < length gs' \<longrightarrow>
           (\<exists>rest. rest \<noteq> [] \<and> gs' ! Suc i = get_overlap_sentences c (gs' ! i) @ rest)) \<and>
         (gs' \<noteq> [] \<longrightarrow> (\<exists>rest. rest \<noteq> [] \<and> cur' = get_overlap_sentences c (last gs') @ rest)) \<and>
         (\<forall>g\<in>set gs'. g \<noteq> []) \<and>
         set (concat gs') \<union> set cur' \<subseteq> set (concat gs) \<union> set cur \<union> {s}"
proof (cases "len + int (length s) \<le> chunk_size c")
  case True
  with st have e: "gs' = gs" "cur' = cur @ [s]"
    by (simp_all add: group_step_def)
  have "gs \<noteq> [] \<longrightarrow> (\<exists>rest. rest \<noteq> [] \<and> cur @ [s] = get_overlap_sentences c (last gs) @ rest)"
  proof
    assume "gs \<noteq> []"
    with cu obtain rest where "cur = get_overlap_sentences c (last gs) @ rest" by blast
    then have "cur @ [s] = get_overlap_sentences c (last gs) @ (rest @ [s])" by simp
    then show "\<exists>rest. rest \<noteq> [] \<and> cur @ [s] = get_overlap_sentences c (last gs) @ rest"
      by blast
  qed
  with ch ne show ?thesis unfolding e by auto
next
  case False
  show ?thesis
  proof (cases "cur = []")
    case True
    with cu have g: "gs = []" by auto
    with st False True have e: "gs' = []" "cur' = [s]"
      by (simp_all add: group_step_def Let_def get_overlap_sentences_def)
    show ?thesis unfolding e by simp
  next
    case nonempty: False
    with st False have e: "gs' = gs @ [cur]" "cur' = get_overlap_sentences c cur @ [s]"
      by (simp_all add: group_step_def Let_def)
    have a: "\<exists>rest. rest \<noteq> [] \<and> (gs @ [cur]) ! Suc i = get_overlap_sentences c ((gs @ [cur]) ! i) @ rest"
      if "Suc i < length (gs @ [cur])" for i
    proof (cases "Suc i < length gs")
      case True
      with ch show ?thesis by (simp add: nth_append)
    next
      case False
      with that have i: "Suc i = length gs" by simp
      then have "gs \<noteq> []" by auto
      with cu obtain rest where "rest \<noteq> []" "cur = get_overlap_sentences c (last gs) @ rest"
        by blast
      moreover have "last gs = gs ! i"
        using \<open>gs \<noteq> []\<close> by (simp add: last_conv_nth i [symmetric])
      ultimately show ?thesis
        using i by (auto simp: nth_append)
    qed
    have b: "set (get_overlap_sentences c cur) \<subseteq> set cur"
      using co by (rule get_overlap_subset)
    show ?thesis
      unfolding e using a ne nonempty b by auto
  qed
qed

lemma foldl_group_step_inv:
  assumes co: "0 \<le> chunk_overlap c"
    and ch: "\<forall>i. Suc i < length gs \<longrightarrow>
           (\<exists>rest. rest \<noteq> [] \<and> gs ! Suc i = get_overlap_sentences c (gs ! i) @ rest)"
    and cu: "gs \<noteq> [] \<longrightarrow> (\<exists>rest. rest \<noteq> [] \<and> cur = get_overlap_sentences c (last gs) @ rest)"
    and ne: "\<forall>g\<in>set gs. g \<noteq> []"
    and st: "foldl (group_step c) (gs, cur, len) ss = (gs', cur', len')"
  shows "(\<forall>i. Suc i < length gs' \<longrightarrow>
           (\<exists>rest. rest \<noteq> [] \<and> gs' ! Suc i = get_overlap_sentences c (gs' ! i) @ rest)) \<and>
         (gs' \<noteq> [] \<longrightarrow> (\<exists>rest. rest \<noteq> [] \<and> cur' = get_overlap_sentences c (last gs') @ rest)) \<and>
         (\<forall>g\<in>set gs'. g \<noteq> []) \<and>
         set (concat gs') \<union> set cur' \<subseteq> set (concat gs) \<union> set cur \<union> set ss"
  using ch cu ne st
proof (induction ss arbitrary: gs cur len)
  case Nil
  then show ?case by simp
next
  case (Cons s ss)
  obtain gs1 cur1 len1 where g: "group_step c (gs, cur, len) s = (gs1, cur1, len1)"
    by (cases "group_step c (gs, cur, len) s") auto
  note i = group_step_inv [OF co Cons.prems(1,2,3) g]
  have f: "foldl (group_step c) (gs1, cur1, len1) ss = (gs', cur', len')"
    using Cons.prems(4) g by simp
  note j = Cons.IH [OF i [THEN conjunct1] i [THEN conjunct2, THEN conjunct1]
      i [THEN conjunct2, THEN conjunct2, THEN conjunct1] f]
  have "set (concat gs') \<union> set cur' \<subseteq> set (concat gs) \<union> set cur \<union> ({s} \<union> set ss)"
    using j [THEN conjunct2, THEN conjunct2, THEN conjunct2]
      i [THEN conjunct2, THEN conjunct2, THEN conjunct2] by blast
  then have "set (concat gs') \<union> set cur' \<subseteq> set (concat gs) \<union> set cur \<union> set (s # ss)"
    by simp
  then show ?case
    using j by blast
qed

lemma chain_snoc:
  assumes ch: "\<forall>i. Suc i < length gs \<longrightarrow>
           (\<exists>rest. rest \<noteq> [] \<and> gs ! Suc i = get_overlap_sentences c (gs ! i) @ rest)"
    and cu: "gs \<noteq> [] \<longrightarrow> (\<exists>rest. rest \<noteq> [] \<and> cur = get_overlap_sentences c (last gs) @ rest)"
    and i: "Suc i < length (gs @ [cur])"
  shows "\<exists>rest. rest \<noteq> [] \<and> (gs @ [cur]) ! Suc i = get_overlap_sentences c ((gs @ [cur]) ! i) @ rest"
proof (cases "Suc i < length gs")
  case True
  with ch show ?thesis by (simp add: nth_append)
next
  case False
  with i have l: "Suc i = length gs" by simp
  then have n: "gs \<noteq> []" by auto
  with cu obtain rest where "rest \<noteq> []" "cur = get_overlap_sentences c (last gs) @ rest"
    by blast
  moreover have "last gs = gs ! i"
    using n by (simp add: last_conv_nth l [symmetric])
  ultimately show ?thesis
    using l by (auto simp: nth_append)
qed

lemma chunk_groups_chain:
  assumes "0 \<le> chunk_overlap c"
  shows "(\<forall>i. Suc i < length (chunk_groups c text) \<longrightarrow>
           (\<exists>rest. rest \<noteq> [] \<and> chunk_groups c text ! Suc i =
                   get_overlap_sentences c (chunk_groups c text ! i) @ rest)) \<and>
         (\<forall>g\<in>set (chunk_groups c text). g \<noteq> []) \<and>
         set (concat (chunk_groups c text)) \<subseteq> set (split_into_sentences (strip text))"
proof (cases "text = [] \<or> strip text = []")
  case True
  then show ?thesis by (simp add: chunk_groups_def)
next
  case False
  obtain gs cur len where
    g: "foldl (group_step c) ([], [], 0) (split_into_sentences (strip text)) = (gs, cur, len)"
    by (cases "foldl (group_step c) ([], [], 0) (split_into_sentences (strip text))") auto
  have inv: "(\<forall>i. Suc i < length gs \<longrightarrow>
           (\<exists>rest. rest \<noteq> [] \<and> gs ! Suc i = get_overlap_sentences c (gs ! i) @ rest)) \<and>
         (gs \<noteq> [] \<longrightarrow> (\<exists>rest. rest \<noteq> [] \<and> cur = get_overlap_sentences c (last gs) @ rest)) \<and>
         (\<forall>g\<in>set gs. g \<noteq> []) \<and>
         set (concat gs) \<union> set cur \<subseteq> set (concat []) \<union> set [] \<union>
           set (split_into_sentences (strip text))"
    using foldl_group_step_inv [OF assms _ _ _ g] by simp
  show ?thesis
  proof (cases "cur = []")
    case True
    with False g have "chunk_groups c text = gs" by (simp add: chunk_groups_def)
    with inv show ?thesis by simp
  next
    case nonempty: False
    with False g have e: "chunk_groups c text = gs @ [cur]" by (simp add: chunk_groups_def)
    have "\<forall>i. Suc i < length (gs @ [cur]) \<longrightarrow>
           (\<exists>rest. rest \<noteq> [] \<and> (gs @ [cur]) ! Suc i =
                   get_overlap_sentences c ((gs @ [cur]) ! i) @ rest)"
      using chain_snoc [OF inv [THEN conjunct1] inv [THEN conjunct2, THEN conjunct1]]
      by blast
    moreover have "\<forall>g\<in>set (gs @ [cur]). g \<noteq> []"
      using inv nonempty by simp
    moreover have "set (concat (gs @ [cur])) \<subseteq> set (split_into_sentences (strip text))"
      using inv by simp
    ultimately show ?thesis unfolding e by blast
  qed
qed

lemma chunks_of_nth: "j < length gs \<Longrightarrow> chunks_of gs ! j = make_chunk (gs ! j) j"
  by (simp add: chunks_of_def nth_enumerate_eq)

lemma example_sentences:
  "split_into_sentences ''Aaaa. Bbbb. Cccc.'' = [''Aaaa.'', ''Bbbb.'', ''Cccc.'']"
  "strip ''Aaaa. Bbbb. Cccc.'' = ''Aaaa. Bbbb. Cccc.''"
  by code_simp+

lemma example_overlap:
  "get_overlap_sentences \<lparr>chunk_size = 15, chunk_overlap = 10\<rparr> [''Aaaa.'', ''Bbbb.''] =
     [''Aaaa.'', ''Bbbb.'']"
  by (simp add: get_overlap_sentences_def)

lemma example_chunks:
  "chunk_text \<lparr>chunk_size = 15, chunk_overlap = 10\<rparr> ''Aaaa. Bbbb. Cccc.'' =
     [make_chunk [''Aaaa.'', ''Bbbb.''] 0, make_chunk [''Aaaa.'', ''Bbbb.'', ''Cccc.''] 1]"
  by (simp add: chunk_text_def example_sentences chunk_step_def example_overlap)

lemma example_groups:
  "chunk_groups \<lparr>chunk_size = 15, chunk_overlap = 10\<rparr> ''Aaaa. Bbbb. Cccc.'' =
     [[''Aaaa.'', ''Bbbb.''], [''Aaaa.'', ''Bbbb.'', ''Cccc.'']]"
  by (simp add: chunk_groups_def example_sentences group_step_def example_overlap)

lemma tokenize_repeated: "tokenize ''cat cat'' = [''cat'', ''cat'']"
  by code_simp

lemma chunk_text_new:
  "chunk_text \<lparr>chunk_size = 500, chunk_overlap = 50\<rparr> ''a cat'' = [make_chunk [''a cat''] 0]"
proof -
  have s: "strip ''a cat'' = ''a cat''" by code_simp
  have p: "split_into_sentences ''a cat'' = [''a cat'']" by code_simp
  show ?thesis by (simp add: chunk_text_def s p chunk_step_def)
qed

section \<open>The claims\<close>

text \<open>
  Claim C1. In every state that satisfies the invariants of the data model, as every
  state reached by the service does, and for every query that tokenizes to at least one
  term, \<^verbatim>\<open>search\<close> scores the stored chunk at each position \<open>j\<close> as the sum, taken
  from 0 in float arithmetic over the terms \<open>t\<close> of the tokenized query in their order,
  of \<open>TF(chunk, t) * IDF(t)\<close>, with \<open>IDF(t) = ln (total_docs / doc_freqs t)\<close> for
  \<open>doc_freqs t > 0\<close> and a contribution of 0 otherwise. The loop adds the products of
  the terms that occur in the chunk and skips the others, whose TF is 0; by the laws of
  zero this is the sum over all the terms of the query. The results are built from the
  ranking of these scores, and each result carries the score computed for its chunk.
\<close>

theorem search_scores_tf_idf:
  assumes "well_formed fl vs" "tokenize query \<noteq> []"
  shows "score_documents fl vs (tokenize query) (documents vs) 0 =
           Inr (map (\<lambda>j. (foldl (\<lambda>s t.
                                if t \<in> set (tokenize (text_of (documents vs ! j)))
                                then fadd fl s
                                       (fmul fl (spec_TF fl (documents vs ! j) t)
                                          (if doc_freqs vs t > 0
                                           then ln (real (total_docs vs) / real (doc_freqs vs t))
                                           else 0))
                                else s) 0 (tokenize query), j))
                  [0..<length (documents vs)]) \<and>
         (zero_laws fl \<longrightarrow>
            score_documents fl vs (tokenize query) (documents vs) 0 =
              Inr (map (\<lambda>j. (foldl (\<lambda>s t.
                                   fadd fl s
                                     (fmul fl (spec_TF fl (documents vs ! j) t)
                                        (if doc_freqs vs t > 0
                                         then ln (real (total_docs vs) / real (doc_freqs vs t))
                                         else 0))) 0 (tokenize query), j))
                     [0..<length (documents vs)])) \<and>
         search fl vs query top_k =
           Inr (map (make_result (documents vs)) (ranking fl vs query top_k)) \<and>
         (\<forall>p\<in>set (ranking fl vs query top_k).
            snd p < length (documents vs) \<and>
            score_doc fl vs (tokenize query) (documents vs ! snd p) = Inr (fst p) \<and>
            make_result (documents vs) p ''score'' = Some (PFloat (fst p)))"
proof (intro conjI impI ballI)
  show "score_documents fl vs (tokenize query) (documents vs) 0 =
           Inr (map (\<lambda>j. (foldl (\<lambda>s t.
                                if t \<in> set (tokenize (text_of (documents vs ! j)))
                                then fadd fl s
                                       (fmul fl (spec_TF fl (documents vs ! j) t)
                                          (if doc_freqs vs t > 0
                                           then ln (real (total_docs vs) / real (doc_freqs vs t))
                                           else 0))
                                else s) 0 (tokenize query), j))
                  [0..<length (documents vs)])"
    using score_documents_scores [OF assms(1), of query]
      computed_scores_present [OF assms(1), of query]
    by (simp add: spec_IDF_def cong: if_cong)
  show "score_documents fl vs (tokenize query) (documents vs) 0 =
              Inr (map (\<lambda>j. (foldl (\<lambda>s t.
                                   fadd fl s
                                     (fmul fl (spec_TF fl (documents vs ! j) t)
                                        (if doc_freqs vs t > 0
                                         then ln (real (total_docs vs) / real (doc_freqs vs t))
                                         else 0))) 0 (tokenize query), j))
                     [0..<length (documents vs)])"
    if "zero_laws fl"
    using score_documents_scores [OF assms(1), of query]
      computed_scores_spec [OF assms(1) that, of query]
    by (simp add: spec_score_def spec_IDF_def)
  show "search fl vs query top_k =
           Inr (map (make_result (documents vs)) (ranking fl vs query top_k))"
    using assms by (simp add: search_ranked ranking_def)
next
  fix p
  assume p: "p \<in> set (ranking fl vs query top_k)"
  show "snd p < length (documents vs)"
    and "score_doc fl vs (tokenize query) (documents vs ! snd p) = Inr (fst p)"
    and "make_result (documents vs) p ''score'' = Some (PFloat (fst p))"
    using ranking_entries [OF assms(1) p] by simp_all
qed

theorem search_scores_tf_idf_witness:
  "score_documents exact example_store (tokenize ''cat'') (documents example_store) 0 =
     Inr [(ln 2 / 3, 0), (0, 1)] \<and>
   score_documents exact example_store (tokenize ''cat cat'') (documents example_store) 0 =
     Inr [(2 * ln 2 / 3, 0), (0, 1)] \<and>
   search exact example_store ''cat'' 5 =
     Inr [make_result (documents example_store) (ln 2 / 3, 0),
          make_result (documents example_store) (0, 1)]"
proof -
  have q: "tokenize ''cat'' \<noteq> []" "tokenize ''cat cat'' \<noteq> []"
    by (simp_all add: tokenize_query tokenize_repeated)
  have d: "documents example_store = [example_doc ''the cat sat'', example_doc ''the dog ran'']"
    "total_docs example_store = 2" "doc_freqs example_store ''cat'' = 1"
    by (simp_all add: example_store_def)
  have tf: "spec_TF exact (example_doc ''the cat sat'') ''cat'' = 1 / 3"
    "spec_TF exact (example_doc ''the dog ran'') ''cat'' = 0"
    by (simp_all add: spec_TF_def exact_def example_doc_def text_of_def tokenize_cat tokenize_dog)
  have ex: "fadd exact = (\<lambda>a b. a + b)" "fmul exact = (\<lambda>a b. a * b)"
    by (simp_all add: exact_def)
  have a: "score_documents exact example_store (tokenize ''cat'') (documents example_store) 0 =
      Inr [(ln 2 / 3, 0), (0, 1)]"
    using search_scores_tf_idf [OF example_well_formed q(1), of 5, THEN conjunct2,
        THEN conjunct1, THEN mp, OF zero_laws_exact]
    by (simp add: d tf ex tokenize_query upt_conv_Cons)
  have b: "score_documents exact example_store (tokenize ''cat cat'') (documents example_store) 0 =
      Inr [(2 * ln 2 / 3, 0), (0, 1)]"
    using search_scores_tf_idf [OF example_well_formed q(2), of 5, THEN conjunct2,
        THEN conjunct1, THEN mp, OF zero_laws_exact]
    by (simp add: d tf ex tokenize_repeated upt_conv_Cons)
  have c: "search exact example_store ''cat'' 5 =
      Inr [make_result (documents example_store) (ln 2 / 3, 0),
           make_result (documents example_store) (0, 1)]"
    using search_scores_tf_idf [OF example_well_formed q(1), of 5, THEN conjunct2,
        THEN conjunct2, THEN conjunct1]
    by (simp add: ranking_def example_scores sort_scores_def slice_to_def)
  show ?thesis by (intro conjI a b c)
qed

text \<open>
  Claim C2, as amended. On a non-empty index in a state that satisfies the invariants
  of the data model and with \<^verbatim>\<open>top_k\<close> at least 1: when the query tokenizes to at least
  one term, \<^verbatim>\<open>search\<close> returns at least one element, and each is a copy of a stored
  chunk with exactly the keys \<^verbatim>\<open>text\<close>, \<^verbatim>\<open>char_count\<close>, \<^verbatim>\<open>chunk_id\<close>,
  \<^verbatim>\<open>document_id\<close> and \<^verbatim>\<open>score\<close>, the score a number, the token list and the TF mapping
  removed; when the query tokenizes to no term, \<^verbatim>\<open>search\<close> returns the first
  \<^verbatim>\<open>top_k\<close> stored chunks in insertion order, and none of them has a score.
\<close>

theorem search_result_fields:
  assumes "well_formed fl vs" "documents vs \<noteq> []" "1 \<le> top_k"
  shows "(tokenize query \<noteq> [] \<longrightarrow>
           (\<exists>results. search fl vs query top_k = Inr results \<and> results \<noteq> [] \<and>
              (\<forall>r\<in>set results.
                 dom r = {''text'', ''char_count'', ''chunk_id'', ''document_id'', ''score''} \<and>
                 (\<exists>s. r ''score'' = Some (PFloat s)) \<and>
                 r ''tokens'' = None \<and> r ''tf'' = None \<and>
                 (\<exists>d\<in>set (documents vs).
                    r ''text'' = d ''text'' \<and> r ''char_count'' = d ''char_count'' \<and>
                    r ''chunk_id'' = d ''chunk_id'' \<and> r ''document_id'' = d ''document_id'')))) \<and>
         (tokenize query = [] \<longrightarrow>
            search fl vs query top_k = Inr (take (nat top_k) (documents vs)) \<and>
            (\<forall>r\<in>set (take (nat top_k) (documents vs)). r ''score'' = None))"
proof (intro conjI impI)
  assume q: "tokenize query \<noteq> []"
  define rk where "rk = slice_to (sort_scores (computed_scores fl vs query)) top_k"
  have s: "search fl vs query top_k = Inr (map (make_result (documents vs)) rk)"
    using assms(1) q by (simp add: search_ranked rk_def)
  have "length (sort_scores (computed_scores fl vs query)) = length (documents vs)"
    by (simp add: sort_scores_def computed_scores_def)
  then have "length rk = min (nat top_k) (length (documents vs))"
    using assms(3) by (simp add: rk_def slice_to_def)
  moreover have "0 < nat top_k" "0 < length (documents vs)"
    using assms(2,3) by simp_all
  ultimately have ne: "map (make_result (documents vs)) rk \<noteq> []"
    by (cases rk) (simp_all add: min_def split: if_splits)
  have "dom (make_result (documents vs) p) =
          {''text'', ''char_count'', ''chunk_id'', ''document_id'', ''score''} \<and>
        (\<exists>s. make_result (documents vs) p ''score'' = Some (PFloat s)) \<and>
        make_result (documents vs) p ''tokens'' = None \<and>
        make_result (documents vs) p ''tf'' = None \<and>
        (\<exists>d\<in>set (documents vs).
           make_result (documents vs) p ''text'' = d ''text'' \<and>
           make_result (documents vs) p ''char_count'' = d ''char_count'' \<and>
           make_result (documents vs) p ''chunk_id'' = d ''chunk_id'' \<and>
           make_result (documents vs) p ''document_id'' = d ''document_id'')"
    if "p \<in> set rk" for p
  proof -
    obtain sc j where p: "p = (sc, j)" by (cases p)
    have j: "j < length (documents vs)"
      using that ranking_subset [of fl vs query top_k] computed_scores_index [of p fl vs query]
      by (auto simp: rk_def p)
    then have st: "stored_chunk fl (documents vs ! j)"
      using assms(1) by (simp add: well_formed_def list_all_length)
    have tx: "(documents vs ! j) ''text'' = Some (PStr (text_of (documents vs ! j)))"
      using st by (simp add: stored_chunk_def)
    have "documents vs ! j \<in> set (documents vs)" using j by simp
    then show ?thesis
      unfolding p using make_result_fields [OF st, of sc] tx by metis
  qed
  with s ne show "\<exists>results. search fl vs query top_k = Inr results \<and> results \<noteq> [] \<and>
              (\<forall>r\<in>set results.
                 dom r = {''text'', ''char_count'', ''chunk_id'', ''document_id'', ''score''} \<and>
                 (\<exists>s. r ''score'' = Some (PFloat s)) \<and>
                 r ''tokens'' = None \<and> r ''tf'' = None \<and>
                 (\<exists>d\<in>set (documents vs).
                    r ''text'' = d ''text'' \<and> r ''char_count'' = d ''char_count'' \<and>
                    r ''chunk_id'' = d ''chunk_id'' \<and> r ''document_id'' = d ''document_id''))"
    by auto
next
  assume q: "tokenize query = []"
  then show "search fl vs query top_k = Inr (take (nat top_k) (documents vs))"
    using assms(3) by (simp add: search_fallback slice_to_def)
  show "\<forall>r\<in>set (take (nat top_k) (documents vs)). r ''score'' = None"
  proof
    fix r assume "r \<in> set (take (nat top_k) (documents vs))"
    then have "r \<in> set (documents vs)" by (rule in_set_takeD)
    then have "dom r = {''text'', ''char_count'', ''chunk_id'', ''document_id'', ''tokens'', ''tf''}"
      using assms(1) by (auto simp: well_formed_def list_all_iff stored_chunk_def)
    then have "''score'' \<notin> dom r" by simp
    then show "r ''score'' = None" by blast
  qed
qed

theorem search_result_fields_witness:
  "search exact example_store ''cat'' 1 = Inr [make_result (documents example_store) (ln 2 / 3, 0)] \<and>
   dom (make_result (documents example_store) (ln 2 / 3, 0)) =
     {''text'', ''char_count'', ''chunk_id'', ''document_id'', ''score''} \<and>
   search exact example_store ''??'' 1 = Inr [example_doc ''the cat sat''] \<and>
   example_doc ''the cat sat'' ''score'' = None"
proof -
  have d: "documents example_store \<noteq> []" by (simp add: example_store_def)
  have k: "(1::int) \<le> 1" by simp
  have q1: "tokenize ''cat'' \<noteq> []" and q2: "tokenize ''??'' = []"
    by (simp_all add: tokenize_query)
  have c: "search exact example_store ''cat'' 1 =
      Inr [make_result (documents example_store) (ln 2 / 3, 0)]"
    by (simp add: search_ranked [OF example_well_formed q1] example_scores
        sort_scores_def slice_to_def)
  note E = search_result_fields [OF example_well_formed d k, of "''cat''",
      THEN conjunct1, THEN mp, OF q1]
  from E c have g: "dom (make_result (documents example_store) (ln 2 / 3, 0)) =
     {''text'', ''char_count'', ''chunk_id'', ''document_id'', ''score''}"
    by (elim exE conjE) simp
  note F = search_result_fields [OF example_well_formed d k, of "''??''",
      THEN conjunct2, THEN mp, OF q2]
  have t: "take (nat 1) (documents example_store) = [example_doc ''the cat sat'']"
    by (simp add: example_store_def)
  have f1: "search exact example_store ''??'' 1 = Inr [example_doc ''the cat sat'']"
    using F [THEN conjunct1] unfolding t .
  have f2: "example_doc ''the cat sat'' ''score'' = None"
    using F [THEN conjunct2] unfolding t by simp
  show ?thesis by (intro conjI c g f1 f2)
qed

text \<open>
  Claim C2 as stated fails for a query that tokenizes to no term: with \<^verbatim>\<open>top_k = 1\<close> on
  the example index, \<^verbatim>\<open>search('??', 1)\<close> returns the first stored chunk itself, which
  has no score and still holds its token list and its TF mapping.
\<close>

theorem fallback_fields_counterexample:
  "tokenize ''??'' = [] \<and>
   search exact example_store ''??'' 1 = Inr [example_doc ''the cat sat''] \<and>
   example_doc ''the cat sat'' ''score'' = None \<and>
   example_doc ''the cat sat'' ''tokens'' = Some (PList [''the'', ''cat'', ''sat'']) \<and>
   example_doc ''the cat sat'' ''tf'' \<noteq> None"
proof -
  have a: "search exact example_store ''??'' 1 = Inr [example_doc ''the cat sat'']"
    by (simp add: search_fallback tokenize_query slice_to_def example_store_def)
  have b: "example_doc ''the cat sat'' ''score'' = None"
    by (simp add: example_doc_def)
  have c: "example_doc ''the cat sat'' ''tokens'' = Some (PList [''the'', ''cat'', ''sat''])"
    by (simp add: example_doc_def tokenize_cat)
  have d: "example_doc ''the cat sat'' ''tf'' \<noteq> None"
    by (simp add: example_doc_def)
  show ?thesis
    by (intro conjI tokenize_query(3) a b c d)
qed

text \<open>
  Claim C3, as amended. Neither the constructor nor \<^verbatim>\<open>search\<close> checks its arguments:
  constructing the service raises no error for any integers \<^verbatim>\<open>chunk_size\<close> and
  \<^verbatim>\<open>chunk_overlap\<close>, and in every state that a sequence of calls on the constructed
  service reaches, \<^verbatim>\<open>search\<close> and \<^verbatim>\<open>get_relevant_context\<close> return for every query and
  every integer \<^verbatim>\<open>top_k\<close>, and \<^verbatim>\<open>get_full_context\<close> returns (\<^verbatim>\<open>get_stats\<close> and
  \<^verbatim>\<open>clear\<close> have no error at all). The one error that surfaces is that of the digest
  expression of \<^verbatim>\<open>add_document\<close>: for a text that cannot be encoded the call raises
  that error, and for every other text it returns.
\<close>

theorem no_error_surfaces:
  "RAGSystem_init cs co =
     Inr \<lparr>chunker = \<lparr>chunk_size = cs, chunk_overlap = co\<rparr>,
          vector_store = SimpleVectorStore_init, document_hashes = {||}\<rparr> \<and>
   (\<exists>rs. run_from fl h cs co ops = Inr rs \<and>
         (\<exists>results. search fl (vector_store rs) query top_k = Inr results) \<and>
         (\<exists>t. get_relevant_context fl rs query top_k = Inr t) \<and>
         (\<exists>t. get_full_context rs = Inr t) \<and>
         (case h T of
            Inl e \<Rightarrow> add_document fl h rs T i = Inl e
          | Inr d \<Rightarrow> \<exists>n rs'. add_document fl h rs T i = Inr (n, rs')))"
proof -
  obtain rs where r: "run_from fl h cs co ops = Inr rs" and w: "well_formed fl (vector_store rs)"
    using run_from_well_formed by blast
  have a: "case h T of
             Inl e \<Rightarrow> add_document fl h rs T i = Inl e
           | Inr d \<Rightarrow> \<exists>n rs'. add_document fl h rs T i = Inr (n, rs')"
  proof (cases "h T")
    case (Inl e)
    then show ?thesis by (simp add: add_document_raises)
  next
    case (Inr d)
    then show ?thesis using add_document_total [where h = h, OF Inr] by simp
  qed
  have f: "\<exists>t. get_full_context rs = Inr t"
    using get_all_text_total [OF w] by (simp add: get_full_context_def)
  have i: "RAGSystem_init cs co =
     Inr \<lparr>chunker = \<lparr>chunk_size = cs, chunk_overlap = co\<rparr>,
          vector_store = SimpleVectorStore_init, document_hashes = {||}\<rparr>"
    by (simp add: RAGSystem_init_def TextChunker_init_def)
  show ?thesis
    using r search_total [OF w, of query top_k] get_relevant_context_total [OF w, of query top_k]
      f a i
    by blast
qed

theorem no_error_surfaces_witness:
  "RAGSystem_init 0 5 =
     Inr \<lparr>chunker = \<lparr>chunk_size = 0, chunk_overlap = 5\<rparr>,
          vector_store = SimpleVectorStore_init, document_hashes = {||}\<rparr> \<and>
   (\<exists>results. search exact example_store ''cat'' (- 3) = Inr results) \<and>
   (\<exists>t. get_relevant_context exact example_system ''cat'' (- 3) = Inr t) \<and>
   (\<exists>t. get_full_context example_system = Inr t) \<and>
   add_document exact (\<lambda>t. if t = ''bad'' then Inl UnicodeEncodeError else Inr t)
     example_system ''bad'' None = Inl UnicodeEncodeError \<and>
   (\<exists>n rs'. add_document exact (\<lambda>t. if t = ''bad'' then Inl UnicodeEncodeError else Inr t)
              example_system ''a cat'' None = Inr (n, rs'))"
proof -
  let ?h = "\<lambda>t. if t = ''bad'' then Inl UnicodeEncodeError else Inr t"
  have r: "run_from exact ?h 500 50 example_ops = Inr example_system"
    by (simp add: run_from_def RAGSystem_init_def TextChunker_init_def example_ops_def
        perform_def add_document_def Let_def chunk_text_example add_example_chunk
        SimpleVectorStore_init_def example_system_def example_store_def
        tokenize_cat tokenize_dog)
       (rule ext, auto)
  have v: "vector_store example_system = example_store"
    by (simp add: example_system_def)
  have a: "RAGSystem_init 0 5 =
     Inr \<lparr>chunker = \<lparr>chunk_size = 0, chunk_overlap = 5\<rparr>,
          vector_store = SimpleVectorStore_init, document_hashes = {||}\<rparr>"
    using no_error_surfaces [of 0 5 exact ?h "[]" "[]" 0 "[]" None] by simp
  from no_error_surfaces [of 500 50 exact ?h example_ops "''cat''" "- 3" "''bad''" None]
  have b: "(\<exists>results. search exact example_store ''cat'' (- 3) = Inr results) \<and>
      (\<exists>t. get_relevant_context exact example_system ''cat'' (- 3) = Inr t) \<and>
      (\<exists>t. get_full_context example_system = Inr t) \<and>
      add_document exact ?h example_system ''bad'' None = Inl UnicodeEncodeError"
    unfolding r by (simp add: v)
  from no_error_surfaces [of 500 50 exact ?h example_ops "''cat''" "- 3" "''a cat''" None]
  have c: "\<exists>n rs'. add_document exact ?h example_system ''a cat'' None = Inr (n, rs')"
    unfolding r by simp
  from a b c show ?thesis by (intro conjI) (elim conjE, assumption)+
qed

text \<open>
  Claim C3 as stated fails: a service with \<^verbatim>\<open>chunk_size = 0\<close> and
  \<^verbatim>\<open>chunk_overlap = 5\<close> is constructed without error, and \<^verbatim>\<open>search\<close> with
  \<^verbatim>\<open>top_k = 0\<close> returns the empty list without error.
\<close>

theorem validation_counterexample:
  "RAGSystem_init 0 5 =
     Inr \<lparr>chunker = \<lparr>chunk_size = 0, chunk_overlap = 5\<rparr>,
          vector_store = SimpleVectorStore_init, document_hashes = {||}\<rparr> \<and>
   search exact example_store ''cat'' 0 = Inr [] \<and>
   search exact example_store ''cat'' (- 1) = Inr [make_result (documents example_store) (ln 2 / 3, 0)]"
  by (simp add: RAGSystem_init_def TextChunker_init_def
      search_ranked [OF example_well_formed] tokenize_query example_scores sort_scores_def
      slice_to_def)

text \<open>
  Claim C4, as amended. For every chunk sequence produced by the chunker in which no
  single sentence is longer than \<^verbatim>\<open>chunk_overlap\<close>: the chunks are the joined texts of
  groups of sentences, and for every two consecutive chunks the sentences carried over
  (the overlap of chunk \<open>i\<close>) are not empty, are the trailing sentences of chunk \<open>i\<close>,
  are followed by at least one more sentence in chunk \<open>i + 1\<close>, and have a combined
  length, not counting the spaces that join them, of at most \<^verbatim>\<open>chunk_overlap\<close>; joined
  as in the text of chunk \<open>i + 1\<close> the prefix has one more character for each joint.
\<close>

theorem overlap_bound:
  assumes "\<forall>s\<in>set (split_into_sentences (strip text)). int (length s) \<le> chunk_overlap c"
  shows "chunk_text c text = chunks_of (chunk_groups c text) \<and>
         (\<forall>j<length (chunk_groups c text).
            (chunk_text c text ! j) ''text'' = Some (PStr (join '' '' (chunk_groups c text ! j)))) \<and>
         (\<forall>i. Suc i < length (chunk_groups c text) \<longrightarrow>
            get_overlap_sentences c (chunk_groups c text ! i) \<noteq> [] \<and>
            (\<exists>pre. chunk_groups c text ! i =
                     pre @ get_overlap_sentences c (chunk_groups c text ! i)) \<and>
            (\<exists>rest. rest \<noteq> [] \<and>
               chunk_groups c text ! Suc i =
                 get_overlap_sentences c (chunk_groups c text ! i) @ rest) \<and>
            total_length (get_overlap_sentences c (chunk_groups c text ! i)) \<le> chunk_overlap c \<and>
            int (length (join '' '' (get_overlap_sentences c (chunk_groups c text ! i)))) =
              total_length (get_overlap_sentences c (chunk_groups c text ! i)) +
              int (length (get_overlap_sentences c (chunk_groups c text ! i))) - 1)"
proof -
  define G where "G = chunk_groups c text"
  have t: "chunk_text c text = chunks_of G"
    by (simp add: G_def chunk_text_groups)
  have tx: "\<forall>j<length G. (chunk_text c text ! j) ''text'' = Some (PStr (join '' '' (G ! j)))"
    by (simp add: t chunks_of_nth make_chunk_text)
  have body: "get_overlap_sentences c (G ! i) \<noteq> [] \<and>
              (\<exists>pre. G ! i = pre @ get_overlap_sentences c (G ! i)) \<and>
              (\<exists>rest. rest \<noteq> [] \<and> G ! Suc i = get_overlap_sentences c (G ! i) @ rest) \<and>
              total_length (get_overlap_sentences c (G ! i)) \<le> chunk_overlap c \<and>
              int (length (join '' '' (get_overlap_sentences c (G ! i)))) =
                total_length (get_overlap_sentences c (G ! i)) +
                int (length (get_overlap_sentences c (G ! i))) - 1"
    if i: "Suc i < length G" for i
  proof -
    have "G \<noteq> []" using i by auto
    then have "split_into_sentences (strip text) \<noteq> []"
      by (auto simp: G_def chunk_groups_def split: if_splits)
    then obtain s where "s \<in> set (split_into_sentences (strip text))"
      by (cases "split_into_sentences (strip text)") auto
    with assms have "int (length s) \<le> chunk_overlap c" by blast
    then have co: "0 \<le> chunk_overlap c" by simp
    note ch = chunk_groups_chain [OF co, of "text", folded G_def]
    have gi: "G ! i \<in> set G" using i by simp
    then have ne: "G ! i \<noteq> []" using ch by blast
    then have "last (G ! i) \<in> set (G ! i)" by simp
    with gi have "last (G ! i) \<in> set (concat G)" by auto
    with ch have "last (G ! i) \<in> set (split_into_sentences (strip text))" by blast
    with assms have "int (length (last (G ! i))) \<le> chunk_overlap c" by blast
    with ne have o: "get_overlap_sentences c (G ! i) \<noteq> []"
      by (rule get_overlap_nonempty)
    have j: "int (length (join '' '' (get_overlap_sentences c (G ! i)))) =
                total_length (get_overlap_sentences c (G ! i)) +
                int (length (get_overlap_sentences c (G ! i))) - 1"
      using o by (simp add: join_length)
    have r: "\<exists>rest. rest \<noteq> [] \<and> G ! Suc i = get_overlap_sentences c (G ! i) @ rest"
      using ch i by blast
    show ?thesis
      using o j r get_overlap_suffix [OF co, of "G ! i"] by blast
  qed
  from t tx body show ?thesis unfolding G_def by blast
qed

theorem overlap_bound_witness:
  "chunk_groups \<lparr>chunk_size = 15, chunk_overlap = 10\<rparr> ''Aaaa. Bbbb. Cccc.'' =
     [[''Aaaa.'', ''Bbbb.''], [''Aaaa.'', ''Bbbb.'', ''Cccc.'']] \<and>
   get_overlap_sentences \<lparr>chunk_size = 15, chunk_overlap = 10\<rparr> [''Aaaa.'', ''Bbbb.''] \<noteq> [] \<and>
   total_length (get_overlap_sentences \<lparr>chunk_size = 15, chunk_overlap = 10\<rparr>
     [''Aaaa.'', ''Bbbb.'']) \<le> 10 \<and>
   int (length (join '' '' (get_overlap_sentences \<lparr>chunk_size = 15, chunk_overlap = 10\<rparr>
     [''Aaaa.'', ''Bbbb.'']))) =
     total_length (get_overlap_sentences \<lparr>chunk_size = 15, chunk_overlap = 10\<rparr>
       [''Aaaa.'', ''Bbbb.'']) + 1"
proof -
  have h: "\<forall>s\<in>set (split_into_sentences (strip ''Aaaa. Bbbb. Cccc.'')).
      int (length s) \<le> chunk_overlap \<lparr>chunk_size = 15, chunk_overlap = 10\<rparr>"
    by (simp add: example_sentences)
  have l: "Suc 0 < length (chunk_groups \<lparr>chunk_size = 15, chunk_overlap = 10\<rparr>
      ''Aaaa. Bbbb. Cccc.'')"
    by (simp add: example_groups)
  note T = overlap_bound [OF h, THEN conjunct2, THEN conjunct2, THEN spec, THEN mp, OF l]
  have n: "chunk_groups \<lparr>chunk_size = 15, chunk_overlap = 10\<rparr> ''Aaaa. Bbbb. Cccc.'' ! 0 =
      [''Aaaa.'', ''Bbbb.'']"
    by (simp add: example_groups)
  have m: "int (length (get_overlap_sentences \<lparr>chunk_size = 15, chunk_overlap = 10\<rparr>
      [''Aaaa.'', ''Bbbb.''])) - 1 = 1"
    by (simp add: example_overlap)
  from T have a: "get_overlap_sentences \<lparr>chunk_size = 15, chunk_overlap = 10\<rparr>
      [''Aaaa.'', ''Bbbb.''] \<noteq> []"
    unfolding n by (rule conjunct1)
  from T have b: "total_length (get_overlap_sentences \<lparr>chunk_size = 15, chunk_overlap = 10\<rparr>
      [''Aaaa.'', ''Bbbb.'']) \<le> 10"
    unfolding n by simp
  from T have c: "int (length (join '' '' (get_overlap_sentences
        \<lparr>chunk_size = 15, chunk_overlap = 10\<rparr> [''Aaaa.'', ''Bbbb.'']))) =
      total_length (get_overlap_sentences \<lparr>chunk_size = 15, chunk_overlap = 10\<rparr>
        [''Aaaa.'', ''Bbbb.'']) + 1"
    unfolding n using m by simp
  show ?thesis by (intro conjI example_groups a b c)
qed

text \<open>
  Claim C4 as stated fails: with \<^verbatim>\<open>chunk_size = 15\<close> and \<^verbatim>\<open>chunk_overlap = 10\<close> the text
  \<^verbatim>\<open>Aaaa. Bbbb. Cccc.\<close> has three sentences of 5 characters, none longer than
  \<^verbatim>\<open>chunk_overlap\<close>. The second chunk starts with both sentences of the first, and the
  prefix \<^verbatim>\<open>Aaaa. Bbbb.\<close>, as joined in the text of the second chunk, has 11 characters.
\<close>

theorem overlap_joined_counterexample:
  "split_into_sentences (strip ''Aaaa. Bbbb. Cccc.'') = [''Aaaa.'', ''Bbbb.'', ''Cccc.''] \<and>
   chunk_text \<lparr>chunk_size = 15, chunk_overlap = 10\<rparr> ''Aaaa. Bbbb. Cccc.'' =
     [make_chunk [''Aaaa.'', ''Bbbb.''] 0, make_chunk [''Aaaa.'', ''Bbbb.'', ''Cccc.''] 1] \<and>
   make_chunk [''Aaaa.'', ''Bbbb.''] 0 ''text'' = Some (PStr ''Aaaa. Bbbb.'') \<and>
   make_chunk [''Aaaa.'', ''Bbbb.'', ''Cccc.''] 1 ''text'' = Some (PStr ''Aaaa. Bbbb. Cccc.'') \<and>
   get_overlap_sentences \<lparr>chunk_size = 15, chunk_overlap = 10\<rparr> [''Aaaa.'', ''Bbbb.''] =
     [''Aaaa.'', ''Bbbb.''] \<and>
   join '' '' (get_overlap_sentences \<lparr>chunk_size = 15, chunk_overlap = 10\<rparr>
     [''Aaaa.'', ''Bbbb.'']) = ''Aaaa. Bbbb.'' \<and>
   \<not> int (length (join '' '' (get_overlap_sentences \<lparr>chunk_size = 15, chunk_overlap = 10\<rparr>
       [''Aaaa.'', ''Bbbb.'']))) \<le> chunk_overlap \<lparr>chunk_size = 15, chunk_overlap = 10\<rparr>"
proof -
  have a: "make_chunk [''Aaaa.'', ''Bbbb.''] 0 ''text'' = Some (PStr ''Aaaa. Bbbb.'')"
    and b: "make_chunk [''Aaaa.'', ''Bbbb.'', ''Cccc.''] 1 ''text'' =
      Some (PStr ''Aaaa. Bbbb. Cccc.'')"
    by (simp_all add: make_chunk_text)
  have c: "join '' '' (get_overlap_sentences \<lparr>chunk_size = 15, chunk_overlap = 10\<rparr>
     [''Aaaa.'', ''Bbbb.'']) = ''Aaaa. Bbbb.''"
    by (simp add: example_overlap)
  have d: "\<not> int (length (join '' '' (get_overlap_sentences \<lparr>chunk_size = 15, chunk_overlap = 10\<rparr>
       [''Aaaa.'', ''Bbbb.'']))) \<le> chunk_overlap \<lparr>chunk_size = 15, chunk_overlap = 10\<rparr>"
    by (simp add: example_overlap)
  have e: "split_into_sentences (strip ''Aaaa. Bbbb. Cccc.'') = [''Aaaa.'', ''Bbbb.'', ''Cccc.'']"
    by (simp add: example_sentences)
  show ?thesis
    by (intro conjI e example_chunks a b example_overlap c d)
qed

text \<open>
  Claim C5. For every search whose query tokenizes to at least one term, the results are
  sorted by descending score, and results of equal score are in ascending order of
  insertion: the results are built from the ranking, which is the list of the scores
  that the scoring loop returns, sorted and cut at \<^verbatim>\<open>top_k\<close>, and in which, of any
  two entries, the earlier one has the strictly greater score, or the same score and
  the smaller insertion position; the score of every entry is the score that the
  scoring loop computes for the chunk at the entry's position, and the result built
  from the entry carries that score and the text of that chunk.
\<close>

theorem search_ranking_order:
  assumes "well_formed fl vs" "tokenize query \<noteq> []"
  shows "score_documents fl vs (tokenize query) (documents vs) 0 =
           Inr (computed_scores fl vs query) \<and>
         search fl vs query top_k =
           Inr (map (make_result (documents vs)) (ranking fl vs query top_k)) \<and>
         (\<forall>a b. a < b \<and> b < length (ranking fl vs query top_k) \<longrightarrow>
            fst (ranking fl vs query top_k ! a) > fst (ranking fl vs query top_k ! b) \<or>
            (fst (ranking fl vs query top_k ! a) = fst (ranking fl vs query top_k ! b) \<and>
             snd (ranking fl vs query top_k ! a) < snd (ranking fl vs query top_k ! b))) \<and>
         (\<forall>p\<in>set (ranking fl vs query top_k).
            snd p < length (documents vs) \<and>
            score_doc fl vs (tokenize query) (documents vs ! snd p) = Inr (fst p) \<and>
            make_result (documents vs) p ''score'' = Some (PFloat (fst p)) \<and>
            make_result (documents vs) p ''text'' = (documents vs ! snd p) ''text'')"
proof -
  have s: "search fl vs query top_k =
      Inr (map (make_result (documents vs)) (ranking fl vs query top_k))"
    using assms by (simp add: search_ranked ranking_def)
  have "sorted_wrt ranks_before (ranking fl vs query top_k)"
    unfolding ranking_def by (rule ranking_sorted)
  then have o: "\<forall>a b. a < b \<and> b < length (ranking fl vs query top_k) \<longrightarrow>
            fst (ranking fl vs query top_k ! a) > fst (ranking fl vs query top_k ! b) \<or>
            (fst (ranking fl vs query top_k ! a) = fst (ranking fl vs query top_k ! b) \<and>
             snd (ranking fl vs query top_k ! a) < snd (ranking fl vs query top_k ! b))"
    by (auto simp: sorted_wrt_iff_nth_less ranks_before_def)
  have e: "\<forall>p\<in>set (ranking fl vs query top_k).
        snd p < length (documents vs) \<and>
        score_doc fl vs (tokenize query) (documents vs ! snd p) = Inr (fst p) \<and>
        make_result (documents vs) p ''score'' = Some (PFloat (fst p)) \<and>
        make_result (documents vs) p ''text'' = (documents vs ! snd p) ''text''"
    using ranking_entries [OF assms(1)] by blast
  from score_documents_scores [OF assms(1)] s o e show ?thesis by (intro conjI)
qed

theorem search_ranking_order_witness:
  "score_documents exact example_store (tokenize ''dog'') (documents example_store) 0 =
     Inr [(0, 0), (ln 2 / 3, 1)] \<and>
   ranking exact example_store ''dog'' 5 = [(ln 2 / 3, 1), (0, 0)] \<and>
   search exact example_store ''dog'' 5 =
     Inr [make_result (documents example_store) (ln 2 / 3, 1),
          make_result (documents example_store) (0, 0)] \<and>
   make_result (documents example_store) (ln 2 / 3, 1) ''text'' = Some (PStr ''the dog ran'') \<and>
   score_documents exact example_store (tokenize ''the'') (documents example_store) 0 =
     Inr [(0, 0), (0, 1)] \<and>
   ranking exact example_store ''the'' 5 = [(0, 0), (0, 1)] \<and>
   search exact example_store ''the'' 5 =
     Inr [make_result (documents example_store) (0, 0),
          make_result (documents example_store) (0, 1)]"
proof -
  have q: "tokenize ''the'' \<noteq> []" "tokenize ''dog'' \<noteq> []"
    by (simp_all add: tokenize_query)
  have l: "(0::real) < ln 2 / 3" by simp
  have c1: "score_documents exact example_store (tokenize ''dog'') (documents example_store) 0 =
     Inr [(0, 0), (ln 2 / 3, 1)]"
    using search_ranking_order [OF example_well_formed q(2), of 5, THEN conjunct1]
    by (simp add: example_scores)
  have c2: "score_documents exact example_store (tokenize ''the'') (documents example_store) 0 =
     Inr [(0, 0), (0, 1)]"
    using search_ranking_order [OF example_well_formed q(1), of 5, THEN conjunct1]
    by (simp add: example_scores)
  have r1: "ranking exact example_store ''the'' 5 = [(0, 0), (0, 1)]"
    by (simp add: ranking_def example_scores sort_scores_def slice_to_def)
  have r2: "ranking exact example_store ''dog'' 5 = [(ln 2 / 3, 1), (0, 0)]"
    using l by (simp add: ranking_def example_scores sort_scores_def slice_to_def)
  have s1: "search exact example_store ''the'' 5 =
     Inr [make_result (documents example_store) (0, 0),
          make_result (documents example_store) (0, 1)]"
    using search_ranking_order [OF example_well_formed q(1), of 5, THEN conjunct2,
        THEN conjunct1]
    by (simp add: r1)
  have s2: "search exact example_store ''dog'' 5 =
     Inr [make_result (documents example_store) (ln 2 / 3, 1),
          make_result (documents example_store) (0, 0)]"
    using search_ranking_order [OF example_well_formed q(2), of 5, THEN conjunct2,
        THEN conjunct1]
    by (simp add: r2)
  have t: "make_result (documents example_store) (ln 2 / 3, 1) ''text'' =
      Some (PStr ''the dog ran'')"
    by (simp add: make_result_def example_store_def example_doc_def)
  show ?thesis by (intro conjI c1 r2 s2 t c2 r1 s1)
qed

text \<open>
  Claim C6. For every service state and every text \<open>T\<close> that has a digest, the first
  call of \<^verbatim>\<open>add_document\<close> with \<open>T\<close> returns, and a second call with the same \<open>T\<close>
  (under any document id) returns 0 and the state unchanged: the index contents, the
  document frequencies and the hash set stay as the first call left them, so
  \<^verbatim>\<open>total_chunks\<close> and \<^verbatim>\<open>unique_documents\<close> can only have grown in the first call. For
  a text that cannot be encoded, each call raises the error of the encoding and changes
  nothing.
\<close>

theorem add_document_twice:
  "case h T of
     Inr d \<Rightarrow>
       \<exists>n rs1. add_document fl h rs T i = Inr (n, rs1) \<and> add_document fl h rs1 T j = Inr (0, rs1)
   | Inl e \<Rightarrow> add_document fl h rs T i = Inl e \<and> add_document fl h rs T j = Inl e"
proof (cases "h T")
  case (Inl e)
  then show ?thesis by (simp add: add_document_raises)
next
  case (Inr d)
  obtain n rs1 where a: "add_document fl h rs T i = Inr (n, rs1)"
    using add_document_total [where h = h, OF Inr] by blast
  then have "d |\<in>| document_hashes rs1"
    using add_document_records_hash [OF a] Inr by simp
  then have "add_document fl h rs1 T j = Inr (0, rs1)"
    using Inr by (simp add: add_document_def)
  with a Inr show ?thesis by auto
qed

theorem add_document_twice_witness:
  "\<exists>rs1. add_document exact (\<lambda>t. Inr t) example_system ''a cat'' None = Inr (1, rs1) \<and>
         add_document exact (\<lambda>t. Inr t) rs1 ''a cat'' (Some ''again'') = Inr (0, rs1) \<and>
         total_chunks (get_stats example_system) = 2 \<and>
         total_chunks (get_stats rs1) = 3 \<and>
         unique_documents (get_stats rs1) = 3"
proof -
  obtain n rs1 where
    a: "add_document exact (\<lambda>t. Inr t) example_system ''a cat'' None = Inr (n, rs1)" and
    b: "add_document exact (\<lambda>t. Inr t) rs1 ''a cat'' (Some ''again'') = Inr (0, rs1)"
    using add_document_twice [where h = "\<lambda>t. Inr t" and T = "''a cat''" and fl = exact
        and rs = example_system and i = None and j = "Some ''again''"]
    by (simp, elim exE conjE)
  have e: "add_document exact (\<lambda>t. Inr t) example_system ''a cat'' None =
      Inr (1, example_system
        \<lparr>document_hashes := {|''a cat'', ''the dog ran'', ''the cat sat''|},
         vector_store :=
           \<lparr>documents = documents example_store @ [example_doc ''a cat''],
            doc_freqs = (\<lambda>u. doc_freqs example_store u +
                               (if u \<in> set (tokenize ''a cat'') then 1 else 0)),
            total_docs = total_docs example_store + 1\<rparr>\<rparr>)"
    by (simp add: add_document_def Let_def example_system_def chunk_text_new add_example_chunk)
  from a e have n: "n = 1" and r: "rs1 = example_system
        \<lparr>document_hashes := {|''a cat'', ''the dog ran'', ''the cat sat''|},
         vector_store :=
           \<lparr>documents = documents example_store @ [example_doc ''a cat''],
            doc_freqs = (\<lambda>u. doc_freqs example_store u +
                               (if u \<in> set (tokenize ''a cat'') then 1 else 0)),
            total_docs = total_docs example_store + 1\<rparr>\<rparr>"
    by simp_all
  have c: "total_chunks (get_stats example_system) = 2"
    by (simp add: get_stats_def example_system_def example_store_def)
  have d: "total_chunks (get_stats rs1) = 3" "unique_documents (get_stats rs1) = 3"
    by (simp_all add: r get_stats_def example_store_def fcard_finsert_if)
  from a b c d show ?thesis unfolding n by (intro exI [of _ rs1] conjI)
qed

text \<open>
  Claim C7. In a state that satisfies the invariants of the data model, let the term
  \<open>t\<close> occur in \<open>k > 0\<close> of the \<open>n\<close> stored chunks. The computed IDF of \<open>t\<close> is
  \<open>ln (n / k)\<close>. After one more chunk that contains \<open>t\<close> is added, it is
  \<open>ln ((n + 1) / (k + 1))\<close>, which is not greater; it is smaller when \<open>k < n\<close>, and when
  \<open>t\<close> is in every chunk (\<open>k = n\<close>) it is 0 before and after.
\<close>

theorem idf_monotone:
  assumes "well_formed fl vs"
    and "0 < chunks_containing (documents vs) t"
    and "add_documents fl vs [d] i = Inr vs'"
    and "t \<in> set (tokenize (text_of d))"
  shows "compute_idf vs t =
           ln (real (length (documents vs)) / real (chunks_containing (documents vs) t)) \<and>
         compute_idf vs' t =
           ln (real (length (documents vs) + 1) /
               real (chunks_containing (documents vs) t + 1)) \<and>
         compute_idf vs' t \<le> compute_idf vs t \<and>
         (chunks_containing (documents vs) t < length (documents vs) \<longrightarrow>
            compute_idf vs' t < compute_idf vs t) \<and>
         (chunks_containing (documents vs) t = length (documents vs) \<longrightarrow>
            compute_idf vs t = 0 \<and> compute_idf vs' t = 0)"
proof -
  define k where "k = chunks_containing (documents vs) t"
  define n where "n = length (documents vs)"
  have k: "doc_freqs vs t = k" and n: "total_docs vs = n"
    using assms(1) by (simp_all add: well_formed_def index_invariant_def k_def n_def)
  have kn: "0 < k" "k \<le> n"
    using assms(2) by (simp_all add: k_def n_def chunks_containing_def)
  have k': "doc_freqs vs' t = k + 1" and n': "total_docs vs' = n + 1"
    using add_single_chunk [OF assms(3)] assms(4) k n by simp_all
  have a: "compute_idf vs t = ln (real n / real k)"
    using kn k n by (simp add: compute_idf_def)
  have b: "compute_idf vs' t = ln (real (n + 1) / real (k + 1))"
    using k' n' by (simp add: compute_idf_def)
  have c: "compute_idf vs' t \<le> compute_idf vs t"
    unfolding a b using kn by (rule ln_ratio_mono(1))
  have d: "k < n \<Longrightarrow> compute_idf vs' t < compute_idf vs t"
    unfolding a b using kn by (rule ln_ratio_mono(2))
  have e: "k = n \<Longrightarrow> compute_idf vs t = 0 \<and> compute_idf vs' t = 0"
    unfolding a b using kn by simp
  from a b c d e show ?thesis
    unfolding k_def n_def by blast
qed

theorem idf_monotone_witness:
  "\<exists>vs'. add_documents exact example_store [make_chunk [''a cat''] 0] None = Inr vs' \<and>
         compute_idf example_store ''cat'' = ln 2 \<and>
         compute_idf vs' ''cat'' = ln (3 / 2) \<and>
         compute_idf vs' ''cat'' < compute_idf example_store ''cat''"
proof -
  obtain vs' where a: "add_documents exact example_store [make_chunk [''a cat''] 0] None = Inr vs'"
    using add_documents_total [of "[make_chunk [''a cat''] 0]" exact example_store None]
    by (auto simp: fresh_make_chunk)
  have "tokenize ''a cat'' = [''cat'']" by code_simp
  then have t: "''cat'' \<in> set (tokenize (text_of (make_chunk [''a cat''] 0)))"
    by (simp add: text_of_def make_chunk_text)
  have c: "chunks_containing (documents example_store) ''cat'' = 1"
    by (simp add: chunks_containing_def example_store_def example_doc_tokens
        tokenize_cat tokenize_dog)
  have l: "length (documents example_store) = 2"
    by (simp add: example_store_def)
  have k: "0 < chunks_containing (documents example_store) ''cat''"
    by (simp add: c)
  from idf_monotone [OF example_well_formed k a t] a show ?thesis
    by (simp add: c l)
qed

text \<open>
  Claim C8. After every sequence of calls on a newly constructed service, whether or
  not a call has raised, the index state satisfies the invariant of the data model: the
  document frequency of every term is the number of stored chunks whose token set
  contains the term, and \<^verbatim>\<open>total_docs\<close> is the number of stored chunks.
\<close>

theorem index_invariant_reachable:
  "\<exists>rs. run_from fl h cs co ops = Inr rs \<and>
        (\<forall>term. doc_freqs (vector_store rs) term =
                length (filter (\<lambda>d. term \<in> set (tokenize (text_of d)))
                          (documents (vector_store rs)))) \<and>
        total_docs (vector_store rs) = length (documents (vector_store rs))"
proof -
  obtain rs where r: "run_from fl h cs co ops = Inr rs" and w: "well_formed fl (vector_store rs)"
    using run_from_well_formed by blast
  from w have "doc_freqs (vector_store rs) u =
      length (filter (\<lambda>d. u \<in> set (tokenize (text_of d))) (documents (vector_store rs)))"
    for u
    using chunks_containing_stored [of fl "documents (vector_store rs)" u]
    by (simp add: well_formed_def index_invariant_def)
  moreover from w have "total_docs (vector_store rs) = length (documents (vector_store rs))"
    by (simp add: well_formed_def index_invariant_def)
  ultimately show ?thesis using r by blast
qed

theorem index_invariant_reachable_witness:
  "(\<forall>term. doc_freqs example_store term =
            length (filter (\<lambda>d. term \<in> set (tokenize (text_of d))) (documents example_store))) \<and>
   total_docs example_store = length (documents example_store) \<and>
   doc_freqs example_store ''the'' = 2 \<and> doc_freqs example_store ''cat'' = 1"
proof -
  obtain rs where r: "run_from exact (\<lambda>t. Inr t) 500 50 example_ops = Inr rs"
    and a: "\<forall>term. doc_freqs (vector_store rs) term =
              length (filter (\<lambda>d. term \<in> set (tokenize (text_of d)))
                        (documents (vector_store rs)))"
    and b: "total_docs (vector_store rs) = length (documents (vector_store rs))"
    using index_invariant_reachable [of exact "\<lambda>t. Inr t" 500 50 example_ops] by blast
  from r have "rs = example_system" by (simp add: example_run)
  then have v: "vector_store rs = example_store" by (simp add: example_system_def)
  have c: "doc_freqs example_store ''the'' = 2" "doc_freqs example_store ''cat'' = 1"
    by (simp_all add: example_store_def)
  from a b c show ?thesis unfolding v by blast
qed

text \<open>
  Claim C9. On an empty index \<^verbatim>\<open>search\<close> returns the empty sequence and
  \<^verbatim>\<open>get_relevant_context\<close> returns the empty string, for every query and every
  \<^verbatim>\<open>top_k\<close>; neither raises.
\<close>

theorem empty_index:
  assumes "documents (vector_store rs) = []"
  shows "search fl (vector_store rs) query top_k = Inr [] \<and>
         get_relevant_context fl rs query top_k = Inr []"
  using assms by (simp add: search_def get_relevant_context_def get_all_text_def)

theorem empty_index_witness:
  "search exact (vector_store (clear example_system)) ''anything'' 5 = Inr [] \<and>
   get_relevant_context exact (clear example_system) ''anything'' 5 = Inr []"
proof -
  have "documents (vector_store (clear example_system)) = []"
    by (simp add: clear_def store_clear_def)
  then show ?thesis by (rule empty_index)
qed

text \<open>
  Claim C10. For a text not seen before whose chunking yields no chunk,
  \<^verbatim>\<open>add_document\<close> returns 0 and changes nothing but the hash set, to which it adds the
  text's digest: \<^verbatim>\<open>unique_documents\<close> grows by 1, \<^verbatim>\<open>total_chunks\<close> stays, and a later
  call with the same text returns 0 as a duplicate. Every empty or whitespace-only text
  is such a text (\<open>strip_empty_chunks\<close>).
\<close>

theorem add_document_no_chunks:
  assumes "chunk_text (chunker rs) T = []" "h T = Inr d" "d |\<notin>| document_hashes rs"
  shows "add_document fl h rs T i =
           Inr (0, rs\<lparr>document_hashes := finsert d (document_hashes rs)\<rparr>) \<and>
         unique_documents (get_stats (rs\<lparr>document_hashes := finsert d (document_hashes rs)\<rparr>)) =
           unique_documents (get_stats rs) + 1 \<and>
         total_chunks (get_stats (rs\<lparr>document_hashes := finsert d (document_hashes rs)\<rparr>)) =
           total_chunks (get_stats rs) \<and>
         add_document fl h (rs\<lparr>document_hashes := finsert d (document_hashes rs)\<rparr>) T j =
           Inr (0, rs\<lparr>document_hashes := finsert d (document_hashes rs)\<rparr>)"
  using assms by (simp add: add_document_def Let_def get_stats_def fcard_finsert_disjoint)

theorem add_document_no_chunks_witness:
  "add_document exact (\<lambda>t. Inr t) example_system [CHR '' '', CHR 0x0A] None =
     Inr (0, example_system\<lparr>document_hashes :=
               {|[CHR '' '', CHR 0x0A], ''the dog ran'', ''the cat sat''|}\<rparr>) \<and>
   unique_documents (get_stats example_system) = 2 \<and>
   unique_documents (get_stats (example_system\<lparr>document_hashes :=
               {|[CHR '' '', CHR 0x0A], ''the dog ran'', ''the cat sat''|}\<rparr>)) = 3 \<and>
   total_chunks (get_stats (example_system\<lparr>document_hashes :=
               {|[CHR '' '', CHR 0x0A], ''the dog ran'', ''the cat sat''|}\<rparr>)) = 2"
proof -
  have "strip [CHR '' '', CHR 0x0A] = []" by code_simp
  then have c: "chunk_text (chunker example_system) [CHR '' '', CHR 0x0A] = []"
    by (rule strip_empty_chunks)
  have h: "(\<lambda>t. Inr t) [CHR '' '', CHR 0x0A] = Inr [CHR '' '', CHR 0x0A]"
    by simp
  have n: "[CHR '' '', CHR 0x0A] |\<notin>| document_hashes example_system"
    by (simp add: example_system_def)
  have u: "unique_documents (get_stats example_system) = 2"
    by (simp add: get_stats_def example_system_def fcard_finsert_if)
  have d: "document_hashes example_system = {|''the dog ran'', ''the cat sat''|}"
    by (simp add: example_system_def)
  have t: "total_chunks (get_stats example_system) = 2"
    by (simp add: get_stats_def example_system_def example_store_def)
  show ?thesis
    using add_document_no_chunks [where h = "\<lambda>t. Inr t" and rs = example_system
        and T = "[CHR '' '', CHR 0x0A]" and d = "[CHR '' '', CHR 0x0A]" and fl = exact
        and i = None and j = None, OF c h n] u t
    by (simp add: d)
qed

end
